theory Spec2Isabelle
  imports Main "HOL-Library.Word"
begin

unbundle bit_operations_syntax

section \<open>Machine types and constants (ModbusDef.h, Slaves.h)\<close>

text \<open>
  The library is C++ for Arduino-class targets.  \<open>uint8_t\<close>, \<open>uint16_t\<close> and
  \<open>uint32_t\<close> are words of that width; an \<open>int32_t\<close> is kept as a 32-bit word and
  read with \<open>sint\<close>.  Buffers are lists of bytes.
\<close>

type_synonym uint8 = "8 word"
type_synonym uint16 = "16 word"
type_synonym uint32 = "32 word"
type_synonym int32 = "32 word"

definition MB_MAX_SLAVE_ID :: uint8 where "MB_MAX_SLAVE_ID = 247"
definition SLAVE_NULL :: uint8 where "SLAVE_NULL = 0xFD"
definition SLAVE_EOF :: uint8 where "SLAVE_EOF = 0xFE"
definition SLAVE_BOF :: uint8 where "SLAVE_BOF = 0xFF"

definition MB_FC_READ_COILS :: uint8 where "MB_FC_READ_COILS = 0x01"
definition MB_FC_READ_DISCRETE_INPUTS :: uint8 where "MB_FC_READ_DISCRETE_INPUTS = 0x02"
definition MB_FC_READ_HOLDING_REGISTERS :: uint8 where "MB_FC_READ_HOLDING_REGISTERS = 0x03"
definition MB_FC_READ_INPUT_REGISTERS :: uint8 where "MB_FC_READ_INPUT_REGISTERS = 0x04"
definition MB_FC_READ_EXCEPTION_STATUS :: uint8 where "MB_FC_READ_EXCEPTION_STATUS = 0x07"
definition MB_FC_READ_AND_WRITE_REGISTERS :: uint8 where "MB_FC_READ_AND_WRITE_REGISTERS = 0x17"

definition MB_EX_SUCCESS :: uint16 where "MB_EX_SUCCESS = 0"
definition MB_EX_LIB_TOO_MANY_DATA :: uint16 where "MB_EX_LIB_TOO_MANY_DATA = 12"
definition MB_EX_LIB_TOO_FEW_DATA :: uint16 where "MB_EX_LIB_TOO_FEW_DATA = 13"
definition MB_EX_LIB_INVALID_SLAVE :: uint16 where "MB_EX_LIB_INVALID_SLAVE = 17"
definition MB_EX_LIB_INVALID_DATA :: uint16 where "MB_EX_LIB_INVALID_DATA = 21"
definition MB_EX_LIB_CRC :: uint16 where "MB_EX_LIB_CRC = 25"
definition MB_EX_LIB_QUEUE_FULL :: uint16 where "MB_EX_LIB_QUEUE_FULL = 29"
definition MB_EX_LIB_NO_MORE_FREE_ADU :: uint16 where "MB_EX_LIB_NO_MORE_FREE_ADU = 32"
definition MB_EX_LIB_BUFFER_IS_TOO_SMALL :: uint16 where "MB_EX_LIB_BUFFER_IS_TOO_SMALL = 33"

definition MB_MAX_READ_COILS :: nat where "MB_MAX_READ_COILS = 2000"
definition MB_MAX_READ_REGISTERS :: nat where "MB_MAX_READ_REGISTERS = 125"
definition MB_MAX_WRITE_READ_REGISTERS :: nat where "MB_MAX_WRITE_READ_REGISTERS = 121"

section \<open>The slave set (Slaves.h, Slaves.cpp)\<close>

text \<open>
  \<open>_mask\<close> is the 32-byte bitmap, \<open>_delay\<close> and \<open>_repeatDelay\<close> are \<open>int32_t\<close>,
  \<open>_active\<close> is the cursor.  The default member initialisers give \<open>Slaves_new\<close>.
\<close>

record Slaves =
  mask_bits :: "uint8 list"
  delay :: int32
  repeatDelay :: int32
  active :: uint8

definition Slaves_new :: Slaves where
  "Slaves_new = \<lparr> mask_bits = replicate 32 0, delay = 0, repeatDelay = - 1, active = SLAVE_BOF \<rparr>"

definition setRepeatDelay :: "int32 \<Rightarrow> Slaves \<Rightarrow> Slaves" where
  "setRepeatDelay r s = s\<lparr> repeatDelay := r \<rparr>"

definition getRepeatDelay :: "Slaves \<Rightarrow> int32" where
  "getRepeatDelay s = repeatDelay s"

definition getRepeat :: "Slaves \<Rightarrow> bool" where
  "getRepeat s = (sint (repeatDelay s) > - 1)"

definition setDelay :: "int32 \<Rightarrow> Slaves \<Rightarrow> Slaves" where
  "setDelay d s = s\<lparr> delay := d \<rparr>"

definition getDelay :: "Slaves \<Rightarrow> int32" where
  "getDelay s = delay s"

text \<open>\<open>_mask[b] |= (1 << i)\<close> on one byte of a bitmap.\<close>

definition orBit :: "nat \<Rightarrow> nat \<Rightarrow> uint8 list \<Rightarrow> uint8 list" where
  "orBit b i m = m[b := (m ! b) OR push_bit i 1]"

text \<open>\<open>Slaves::set(uint8_t slaveId)\<close>.\<close>

definition set_id :: "uint8 \<Rightarrow> Slaves \<Rightarrow> Slaves" where
  "set_id slaveId s =
     (if slaveId > MB_MAX_SLAVE_ID then s
      else s\<lparr> mask_bits := orBit (unat slaveId div 8) (unat slaveId mod 8) (mask_bits s) \<rparr>)"

text \<open>\<open>Slaves::set(std::initializer_list<uint8_t>)\<close>: one \<open>set\<close> per value, in order.\<close>

definition set_list :: "uint8 list \<Rightarrow> Slaves \<Rightarrow> Slaves" where
  "set_list ids s = fold set_id ids s"

text \<open>
  \<open>Slaves::set(uint8_t begin, uint8_t end)\<close>.  The bit counters stay below 9 and the
  byte indices below 32, so they are natural numbers here; \<open>memset\<close> fills the bytes
  strictly between the first and the last one with \<open>0xFF\<close>.
\<close>

definition set_range :: "uint8 \<Rightarrow> uint8 \<Rightarrow> Slaves \<Rightarrow> Slaves" where
  "set_range begin end s =
     (if begin > end \<or> end > MB_MAX_SLAVE_ID then s
      else
        let startByte = unat begin div 8;
            endByte = unat end div 8;
            startBit = unat begin mod 8;
            endBit = unat end mod 8
        in if startByte = endByte
           then s\<lparr> mask_bits := fold (orBit startByte) [startBit ..< Suc endBit] (mask_bits s) \<rparr>
           else
             let m1 = fold (orBit startByte) [startBit ..< 8] (mask_bits s);
                 m2 = (if endByte > startByte + 1
                       then fold (\<lambda>b m. m[b := 0xFF]) [startByte + 1 ..< endByte] m1
                       else m1);
                 m3 = fold (orBit endByte) [0 ..< Suc endBit] m2
             in s\<lparr> mask_bits := m3 \<rparr>)"

definition remove_id :: "uint8 \<Rightarrow> Slaves \<Rightarrow> Slaves" where
  "remove_id slaveId s =
     (if slaveId > MB_MAX_SLAVE_ID then s
      else s\<lparr> mask_bits := (mask_bits s)[unat slaveId div 8 :=
                 (mask_bits s ! (unat slaveId div 8)) AND NOT (push_bit (unat slaveId mod 8) 1)] \<rparr>)"

definition isSet :: "Slaves \<Rightarrow> uint8 \<Rightarrow> bool" where
  "isSet s slaveId =
     (if slaveId > MB_MAX_SLAVE_ID then False
      else (mask_bits s ! (unat slaveId div 8)) AND push_bit (unat slaveId mod 8) 1 \<noteq> 0)"

definition Slaves_clear :: "Slaves \<Rightarrow> Slaves" where
  "Slaves_clear s = s\<lparr> mask_bits := replicate 32 0, active := SLAVE_BOF, delay := 0, repeatDelay := - 1 \<rparr>"

definition getActive :: "Slaves \<Rightarrow> uint8" where
  "getActive s = active s"

definition resetActive :: "Slaves \<Rightarrow> Slaves" where
  "resetActive s = s\<lparr> active := SLAVE_BOF \<rparr>"

text \<open>\<open>Slaves::valid\<close>: some byte of the bitmap is non-zero.\<close>

definition Slaves_valid :: "Slaves \<Rightarrow> bool" where
  "Slaves_valid s = list_ex (\<lambda>b. b > 0) (take 32 (mask_bits s))"

text \<open>
  The loop \<open>for (uint8_t i = start; i <= MB_MAX_SLAVE_ID; ++i) if (isSet(i)) return i;\<close>
  shared by \<open>getNext\<close>, \<open>peek\<close> and \<open>hasMore\<close>.  The counter never passes 248, so it
  does not wrap; \<open>None\<close> is leaving the loop without a hit.
\<close>

function scanUp :: "Slaves \<Rightarrow> nat \<Rightarrow> uint8 option" where
  "scanUp s i =
     (if i \<le> 247
      then (if isSet s (of_nat i) then Some (of_nat i) else scanUp s (Suc i))
      else None)"
  by pat_completeness auto
termination
  by (relation "measure (\<lambda>(s, i). 248 - i)") auto

declare scanUp.simps [simp del]

definition scanStart :: "Slaves \<Rightarrow> nat" where
  "scanStart s = (if active s = SLAVE_BOF then 0 else unat (active s + 1))"

text \<open>\<open>Slaves::getNext\<close>: the returned ID and the set with its cursor moved.\<close>

definition getNext :: "Slaves \<Rightarrow> uint8 \<times> Slaves" where
  "getNext s =
     (case scanUp s (scanStart s) of
        Some i \<Rightarrow> (i, s\<lparr> active := i \<rparr>)
      | None \<Rightarrow>
          if getRepeat s
          then (case scanUp s 0 of
                  Some i \<Rightarrow> (i, s\<lparr> active := i \<rparr>)
                | None \<Rightarrow> (SLAVE_EOF, s))
          else (SLAVE_EOF, s))"

text \<open>
  The second loop of \<open>Slaves::peek\<close>,
  \<open>for (uint8_t i = 0; i <= _active; ++i) if (isSet(i)) return i;\<close>, followed by
  \<open>return SLAVE_EOF\<close>.  Its bound is the cursor, so with the cursor at \<open>SLAVE_BOF\<close>
  the 8-bit counter wraps and the loop need not end: not returning is \<open>None\<close>.
\<close>

partial_function (option) peekWrap :: "Slaves \<Rightarrow> uint8 \<Rightarrow> uint8 option" where
  "peekWrap s i =
     (if i \<le> active s
      then (if isSet s i then Some i else peekWrap s (i + 1))
      else Some SLAVE_EOF)"

declare peekWrap.simps [code]

definition peek :: "Slaves \<Rightarrow> uint8 option" where
  "peek s =
     (case scanUp s (scanStart s) of
        Some i \<Rightarrow> Some i
      | None \<Rightarrow> if getRepeat s then peekWrap s 0 else Some SLAVE_EOF)"

definition hasMore :: "Slaves \<Rightarrow> bool" where
  "hasMore s = (if getRepeat s then True else scanUp s (scanStart s) \<noteq> None)"

text \<open>\<open>n\<close> successive calls of \<open>getNext\<close>: the IDs returned, in order, and the final set.\<close>

fun getNexts :: "nat \<Rightarrow> Slaves \<Rightarrow> uint8 list \<times> Slaves" where
  "getNexts 0 s = ([], s)"
| "getNexts (Suc n) s =
     (let (i, s1) = getNext s; (is, s2) = getNexts n s1 in (i # is, s2))"

text \<open>The mutating operations of the class, for statements about reachable sets.\<close>

datatype SlavesOp =
    OpSet uint8
  | OpSetRange uint8 uint8
  | OpSetList "uint8 list"
  | OpRemove uint8
  | OpClear
  | OpSetDelay int32
  | OpSetRepeatDelay int32
  | OpGetNext
  | OpResetActive

fun applyOp :: "SlavesOp \<Rightarrow> Slaves \<Rightarrow> Slaves" where
  "applyOp (OpSet i) s = set_id i s"
| "applyOp (OpSetRange b e) s = set_range b e s"
| "applyOp (OpSetList ids) s = set_list ids s"
| "applyOp (OpRemove i) s = remove_id i s"
| "applyOp OpClear s = Slaves_clear s"
| "applyOp (OpSetDelay d) s = setDelay d s"
| "applyOp (OpSetRepeatDelay r) s = setRepeatDelay r s"
| "applyOp OpGetNext s = snd (getNext s)"
| "applyOp OpResetActive s = resetActive s"

definition applyOps :: "SlavesOp list \<Rightarrow> Slaves \<Rightarrow> Slaves" where
  "applyOps ops s = fold applyOp ops s"

text \<open>
  IDs 248..255 live in the last byte of the bitmap: a bitmap of the right size whose
  byte 31 is zero holds no reserved ID.
\<close>

definition maskInv :: "Slaves \<Rightarrow> bool" where
  "maskInv s \<longleftrightarrow> length (mask_bits s) = 32 \<and> mask_bits s ! 31 = 0"

section \<open>The PDU (PDU.h, PDU.cpp, PDU.tpp)\<close>

text \<open>
  \<open>modbusCallback\<close> is \<open>Callback<void, PDU&>\<close> of the external Callback library: a slot
  that is empty or holds a handler, named here by a number.  \<open>valid()\<close> tells the two
  apart and \<open>clear()\<close> empties the slot.
\<close>

datatype modbusCallback = NoCallback | Handler nat

fun cb_valid :: "modbusCallback \<Rightarrow> bool" where
  "cb_valid NoCallback = False"
| "cb_valid (Handler h) = True"

text \<open>
  The fields of class \<open>PDU\<close>.  The three buffer pointers point into memory owned by the
  derived ADU; each is kept as the list of bytes from the pointer to the end of that
  memory.  A default-constructed \<open>PDU\<close> has null pointers: the empty list.
\<close>

record PDU =
  callback :: modbusCallback
  TXPDUbuffer :: "uint8 list"
  RXPDUbuffer :: "uint8 list"
  TXPDUbufferLen :: uint8
  PDUresponseHead :: "uint8 list"
  dataBegin :: uint8
  dataLen :: uint8
  err :: uint16
  expectedResponseLen :: uint8
  elemSize :: uint8
  used :: bool
  PDUSize :: uint8
  queuedTime :: uint32
  delayToSend :: uint32
  slave :: uint8

text \<open>\<open>PDU::PDU(uint8_t slave)\<close>, the object the API hands to a callback on an early error.\<close>

definition PDU_new :: "uint8 \<Rightarrow> PDU" where
  "PDU_new sl = \<lparr> callback = NoCallback, TXPDUbuffer = [], RXPDUbuffer = [], TXPDUbufferLen = 0,
     PDUresponseHead = [], dataBegin = 0, dataLen = 0, err = 0, expectedResponseLen = 0,
     elemSize = 0, used = False, PDUSize = 0, queuedTime = 0, delayToSend = 0, slave = sl \<rparr>"

text \<open>\<open>PDU::clear\<close>.\<close>

definition PDU_clear :: "'a PDU_scheme \<Rightarrow> 'a PDU_scheme" where
  "PDU_clear p = p\<lparr> callback := NoCallback, TXPDUbufferLen := 0, dataBegin := 0, dataLen := 0,
     err := 0, expectedResponseLen := 0, elemSize := 0, used := False, delayToSend := 0,
     queuedTime := 0, slave := 0 \<rparr>"

text \<open>Arduino's \<open>lowByte\<close> and \<open>highByte\<close> of a 16-bit value.\<close>

definition lowByte :: "uint16 \<Rightarrow> uint8" where
  "lowByte w = ucast (w AND 0xFF)"

definition highByte :: "uint16 \<Rightarrow> uint8" where
  "highByte w = ucast (drop_bit 8 w)"

subsection \<open>Register packing\<close>

text \<open>
  \<open>const uint8_t paddedSize = (elemSize % 2 == 0) ? elemSize : elemSize + 1\<close>, with the
  truncation to 8 bits written out.
\<close>

definition paddedSizeOf :: "nat \<Rightarrow> nat" where
  "paddedSizeOf elemSz = (if elemSz mod 2 = 0 then elemSz else (elemSz + 1) mod 256)"

text \<open>The values \<open>0, 2, 4, ...\<close> below \<open>p\<close> that \<open>for (j = 0; j < p; j += 2)\<close> runs through.\<close>

definition evensBelow :: "nat \<Rightarrow> nat list" where
  "evensBelow p = map (\<lambda>k. 2 * k) [0 ..< (p + 1) div 2]"

text \<open>\<open>memcpy(dest + off, bytes, length bytes)\<close>.\<close>

definition memcpy_at :: "uint8 list \<Rightarrow> nat \<Rightarrow> uint8 list \<Rightarrow> uint8 list" where
  "memcpy_at dest off bytes = take off dest @ bytes @ drop (off + length bytes) dest"

text \<open>One element of the big-endian-host branch: copy it, then zero the pad byte.\<close>

definition packElemBE :: "uint8 list \<Rightarrow> nat \<Rightarrow> nat \<Rightarrow> nat \<Rightarrow> uint8 list \<Rightarrow> uint8 list" where
  "packElemBE src s p i dest =
     (let d1 = memcpy_at dest (i * p) (take s (drop (i * s) src))
      in if p > s then d1[i * p + p - 1 := 0] else d1)"

text \<open>One register of one element of the little-endian-host branch.\<close>

definition packRegLE :: "uint8 list \<Rightarrow> nat \<Rightarrow> nat \<Rightarrow> nat \<Rightarrow> nat \<Rightarrow> uint8 list \<Rightarrow> uint8 list" where
  "packRegLE src s p i j dest =
     (let lo = (if j < s then src ! (i * s + j) else 0);
          hi = (if j + 1 < s then src ! (i * s + j + 1) else 0)
      in dest[i * p + j := hi, i * p + j + 1 := lo])"

definition packElemLE :: "uint8 list \<Rightarrow> nat \<Rightarrow> nat \<Rightarrow> nat \<Rightarrow> uint8 list \<Rightarrow> uint8 list" where
  "packElemLE src s p i dest = fold (packRegLE src s p i) (evensBelow p) dest"

text \<open>
  \<open>PDU::convertToBigEndianRegisters(src, elemCount, elemSize, dest, destLen)\<close>, with the
  global \<open>isBigEndian\<close> as first argument.  The result is the returned flag and the
  destination memory afterwards.  Pointers are never null here.
\<close>

definition convertToBigEndianRegisters ::
  "bool \<Rightarrow> uint8 list \<Rightarrow> uint8 \<Rightarrow> uint8 \<Rightarrow> uint8 list \<Rightarrow> uint16 \<Rightarrow> bool \<times> uint8 list" where
  "convertToBigEndianRegisters isBigEndian src elemCount elemSz dest destLen =
     (if elemSz = 0 then (False, dest)
      else
        let s = unat elemSz;
            p = paddedSizeOf s;
            paddedTotal = (unat elemCount * p) mod 65536
        in if unat destLen < paddedTotal then (False, dest)
           else if isBigEndian
           then (True, fold (packElemBE src s p) [0 ..< unat elemCount] dest)
           else (True, fold (packElemLE src s p) [0 ..< unat elemCount] dest))"

text \<open>
  One register of one element of the in-place unpacking: both bytes are read from the
  buffer and written, swapped, into \<open>temp\<close>.
\<close>

definition unpackReg :: "bool \<Rightarrow> uint8 list \<Rightarrow> nat \<Rightarrow> nat \<Rightarrow> nat \<Rightarrow> nat \<Rightarrow> uint8 list \<Rightarrow> uint8 list" where
  "unpackReg isBigEndian buffer s p i j temp =
     (let hi = buffer ! (i * p + j);
          lo = buffer ! (i * p + j + 1);
          reg = (push_bit 8 (ucast hi) OR ucast lo :: uint16);
          loByte = (if isBigEndian then lo else lowByte reg);
          hiByte = (if isBigEndian then hi else highByte reg);
          t1 = (if j < s then temp[j := loByte] else temp)
      in if j + 1 < s then t1[j + 1 := hiByte] else t1)"

text \<open>One element: fill \<open>temp\<close>, then \<open>memcpy(buffer + i * elemSize, temp, elemSize)\<close>.\<close>

definition unpackElem ::
  "bool \<Rightarrow> nat \<Rightarrow> nat \<Rightarrow> nat \<Rightarrow> uint8 list \<times> uint8 list \<Rightarrow> uint8 list \<times> uint8 list" where
  "unpackElem isBigEndian s p i bt =
     (let temp = fold (unpackReg isBigEndian (fst bt) s p i) (evensBelow p) (snd bt)
      in (memcpy_at (fst bt) (i * s) (take s temp), temp))"

text \<open>
  \<open>PDU::convertFromBigEndianRegistersInPlace(buffer, elemCount, elemSize)\<close>: the returned
  flag, the buffer afterwards and the PDU with \<open>_dataLen\<close> updated.  \<open>temp[32]\<close> is an
  uninitialised local; every byte copied out of it has been written before, and it
  starts as zeros here.
\<close>

definition convertFromBigEndianRegistersInPlace ::
  "bool \<Rightarrow> uint8 list \<Rightarrow> uint8 \<Rightarrow> uint8 \<Rightarrow> 'a PDU_scheme \<Rightarrow> bool \<times> uint8 list \<times> 'a PDU_scheme" where
  "convertFromBigEndianRegistersInPlace isBigEndian buffer elemCount elemSz pdu =
     (if elemSz = 0 then (False, buffer, pdu)
      else
        let s = unat elemSz;
            p = paddedSizeOf s;
            srcTotal = (unat elemCount * p) mod 65536;
            destTotal = (unat elemCount * s) mod 65536
        in if srcTotal > unat (PDUSize pdu) \<or> destTotal > unat (PDUSize pdu) then (False, buffer, pdu)
           else if s > 32 then (False, buffer, pdu)
           else
             let bt = fold (unpackElem isBigEndian s p) [0 ..< unat elemCount] (buffer, replicate 32 0)
             in (True, fst bt, pdu\<lparr> dataLen := of_nat (unat elemCount * s) \<rparr>))"

text \<open>
  Vocabulary for statements about the packing: what each branch leaves at offset \<open>k\<close>
  of element \<open>i\<close> of the destination, and what the unpacking stores at offset \<open>k\<close> of
  element \<open>i\<close>, read from buffer \<open>b\<close>.
\<close>

definition packedLE :: "uint8 list \<Rightarrow> nat \<Rightarrow> nat \<Rightarrow> nat \<Rightarrow> uint8" where
  "packedLE src s i k =
     (if even k then (if k + 1 < s then src ! (i * s + k + 1) else 0)
      else (if k - 1 < s then src ! (i * s + k - 1) else 0))"

definition packedBE :: "uint8 list \<Rightarrow> nat \<Rightarrow> nat \<Rightarrow> nat \<Rightarrow> uint8" where
  "packedBE src s i k = (if k < s then src ! (i * s + k) else 0)"

definition unpacked :: "uint8 list \<Rightarrow> nat \<Rightarrow> nat \<Rightarrow> nat \<Rightarrow> uint8" where
  "unpacked b p i k = (if even k then b ! (i * p + k + 1) else b ! (i * p + k - 1))"

text \<open>
  The object representation of a \<open>uint32_t\<close> in host memory, and the registers a byte
  sequence carries on the wire (each register is sent high byte first).
\<close>

definition hostBytes32 :: "bool \<Rightarrow> uint32 \<Rightarrow> uint8 list" where
  "hostBytes32 isBigEndian v =
     (let le = [ucast v, ucast (drop_bit 8 v), ucast (drop_bit 16 v), ucast (drop_bit 24 v)]
      in if isBigEndian then rev le else le)"

fun wireRegisters :: "uint8 list \<Rightarrow> uint16 list" where
  "wireRegisters (hi # lo # bs) = (push_bit 8 (ucast hi) OR ucast lo) # wireRegisters bs"
| "wireRegisters bs = []"

subsection \<open>Reading typed data\<close>

text \<open>
  A read of \<open>n\<close> bytes at offset \<open>off\<close> of a buffer; \<open>None\<close> is a read that leaves the
  buffer.
\<close>

definition readBytes :: "uint8 list \<Rightarrow> nat \<Rightarrow> nat \<Rightarrow> uint8 list option" where
  "readBytes buf off n = (if off + n \<le> length buf then Some (take n (drop off buf)) else None)"

text \<open>
  \<open>PDU::getData<T>(ix)\<close> with \<open>sz = sizeof(T)\<close>; the value is the object representation
  of the result, \<open>sz\<close> bytes.  \<open>offset\<close> is a \<open>uint16_t\<close>; \<open>offset + sizeof(T)\<close> is
  computed in \<open>size_t\<close>, which has \<open>w\<close> bits (16 on AVR, 32 or 64 elsewhere).
\<close>

definition getData :: "nat \<Rightarrow> nat \<Rightarrow> uint16 \<Rightarrow> 'a PDU_scheme \<Rightarrow> uint8 list option" where
  "getData w sz ix pdu =
     (let offset = (unat (dataBegin pdu) + unat ix * sz) mod 65536
      in if (offset + sz) mod 2 ^ w > unat (PDUSize pdu) \<or> unat ix \<ge> unat (dataLen pdu) div sz
         then Some (replicate sz 0)
         else readBytes (RXPDUbuffer pdu) (unat (dataBegin pdu) + unat ix * sz) sz)"

subsection \<open>Request builders\<close>

text \<open>
  Each builder returns its \<open>uint16_t\<close> result and the PDU afterwards.  \<open>sizeof(T)\<close> of a
  template parameter is a number argument.
\<close>

definition createReadState ::
  "uint8 \<Rightarrow> uint16 \<Rightarrow> uint16 \<Rightarrow> modbusCallback \<Rightarrow> 'a PDU_scheme \<Rightarrow> uint16 \<times> 'a PDU_scheme" where
  "createReadState fn addr cnt cb pdu =
     (let p = pdu\<lparr> callback := cb \<rparr>
      in if cnt = 0 then (MB_EX_LIB_TOO_FEW_DATA, p\<lparr> err := MB_EX_LIB_TOO_FEW_DATA \<rparr>)
         else if unat cnt > MB_MAX_READ_COILS
         then (MB_EX_LIB_TOO_MANY_DATA, p\<lparr> err := MB_EX_LIB_TOO_MANY_DATA \<rparr>)
         else if unat (PDUSize p) < 5 \<or> unat (PDUSize p) < 2 + (unat cnt + 7) div 8
         then (MB_EX_LIB_BUFFER_IS_TOO_SMALL, p\<lparr> err := MB_EX_LIB_BUFFER_IS_TOO_SMALL \<rparr>)
         else (MB_EX_SUCCESS,
               p\<lparr> TXPDUbuffer := (TXPDUbuffer p)[0 := fn, 1 := highByte addr, 2 := lowByte addr,
                                                  3 := highByte cnt, 4 := lowByte cnt],
                  PDUresponseHead := (PDUresponseHead p)[0 := fn, 1 := of_nat ((unat cnt + 7) div 8)],
                  TXPDUbufferLen := 5,
                  expectedResponseLen := of_nat (2 + (unat cnt + 7) div 8) \<rparr>))"

definition toRegisterCount :: "uint8 \<Rightarrow> uint8" where
  "toRegisterCount byteCount = of_nat ((unat byteCount + 1) div 2)"

definition createReadRegisters ::
  "nat \<Rightarrow> uint8 \<Rightarrow> uint16 \<Rightarrow> uint8 \<Rightarrow> modbusCallback \<Rightarrow> 'a PDU_scheme \<Rightarrow> uint16 \<times> 'a PDU_scheme" where
  "createReadRegisters sizeofT fn addr cnt cb pdu =
     (let p = pdu\<lparr> callback := cb, elemSize := of_nat sizeofT \<rparr>
      in if cnt = 0 then (MB_EX_LIB_TOO_FEW_DATA, p\<lparr> err := MB_EX_LIB_TOO_FEW_DATA \<rparr>)
         else
           let regCount = cnt * toRegisterCount (elemSize p);
               byteCount = unat regCount * 2
           in if unat regCount > MB_MAX_READ_REGISTERS
              then (MB_EX_LIB_TOO_MANY_DATA, p\<lparr> err := MB_EX_LIB_TOO_MANY_DATA \<rparr>)
              else if unat (PDUSize p) < 5 \<or> unat (PDUSize p) < 2 + byteCount
              then (MB_EX_LIB_BUFFER_IS_TOO_SMALL, p\<lparr> err := MB_EX_LIB_BUFFER_IS_TOO_SMALL \<rparr>)
              else (MB_EX_SUCCESS,
                    p\<lparr> TXPDUbuffer := (TXPDUbuffer p)[0 := fn, 1 := highByte addr, 2 := lowByte addr,
                             3 := highByte (ucast regCount), 4 := lowByte (ucast regCount)],
                       PDUresponseHead := (PDUresponseHead p)[0 := fn, 1 := of_nat byteCount],
                       TXPDUbufferLen := 5,
                       expectedResponseLen := of_nat (2 + byteCount) \<rparr>))"

definition createReadExceptionStatus ::
  "modbusCallback \<Rightarrow> 'a PDU_scheme \<Rightarrow> uint16 \<times> 'a PDU_scheme" where
  "createReadExceptionStatus cb pdu =
     (let p = pdu\<lparr> callback := cb \<rparr>
      in if unat (PDUSize p) < 2
         then (MB_EX_LIB_BUFFER_IS_TOO_SMALL, p\<lparr> err := MB_EX_LIB_BUFFER_IS_TOO_SMALL \<rparr>)
         else (MB_EX_SUCCESS,
               p\<lparr> TXPDUbuffer := (TXPDUbuffer p)[0 := MB_FC_READ_EXCEPTION_STATUS],
                  PDUresponseHead := (PDUresponseHead p)[0 := MB_FC_READ_EXCEPTION_STATUS],
                  TXPDUbufferLen := 1,
                  expectedResponseLen := 2 \<rparr>))"

text \<open>
  \<open>createReadWriteMultipleRegisters<READ_T, WRITE_T>\<close>: the global \<open>isBigEndian\<close> first,
  then \<open>sizeof(READ_T)\<close> and \<open>sizeof(WRITE_T)\<close>; \<open>writeData\<close> is the source array as
  bytes.  The 16-bit totals wrap as the \<open>uint16_t\<close> locals do, and \<open>writeCount\<close> is cut
  to 8 bits where it is passed as \<open>elemCount\<close>.
\<close>

definition createReadWriteMultipleRegisters ::
  "bool \<Rightarrow> nat \<Rightarrow> nat \<Rightarrow> uint16 \<Rightarrow> uint8 \<Rightarrow> uint16 \<Rightarrow> uint8 list \<Rightarrow> uint16 \<Rightarrow> modbusCallback
     \<Rightarrow> 'a PDU_scheme \<Rightarrow> uint16 \<times> 'a PDU_scheme" where
  "createReadWriteMultipleRegisters bigEndian sizeofR sizeofW readAddr readCount writeAddr writeData writeCount cb pdu =
     (let p = pdu\<lparr> callback := cb, elemSize := of_nat sizeofR \<rparr>;
          writeElemSize = (of_nat sizeofW :: uint8);
          paddedSize = paddedSizeOf (unat writeElemSize);
          totalWriteBytes = (of_nat (unat writeCount * paddedSize) :: uint16);
          writeRegCount = totalWriteBytes div 2;
          readByteCount = (of_nat (unat readCount * unat (elemSize p)) :: uint16);
          totalLen = 10 + totalWriteBytes
      in if readCount = 0 \<or> writeCount = 0
         then (MB_EX_LIB_TOO_FEW_DATA, p\<lparr> err := MB_EX_LIB_TOO_FEW_DATA \<rparr>)
         else if unat readCount > MB_MAX_READ_REGISTERS
         then (MB_EX_LIB_TOO_MANY_DATA, p\<lparr> err := MB_EX_LIB_TOO_MANY_DATA \<rparr>)
         else if unat writeRegCount > MB_MAX_WRITE_READ_REGISTERS
         then (MB_EX_LIB_TOO_MANY_DATA, p\<lparr> err := MB_EX_LIB_TOO_MANY_DATA \<rparr>)
         else if unat (PDUSize p) < unat totalLen
         then (MB_EX_LIB_BUFFER_IS_TOO_SMALL, p\<lparr> err := MB_EX_LIB_BUFFER_IS_TOO_SMALL \<rparr>)
         else
           let tx = (TXPDUbuffer p)[0 := MB_FC_READ_AND_WRITE_REGISTERS,
                      1 := highByte readAddr, 2 := lowByte readAddr,
                      3 := highByte (ucast readCount), 4 := lowByte (ucast readCount),
                      5 := highByte writeAddr, 6 := lowByte writeAddr,
                      7 := highByte writeRegCount, 8 := lowByte writeRegCount,
                      9 := ucast totalWriteBytes];
               hd' = (PDUresponseHead p)[0 := MB_FC_READ_AND_WRITE_REGISTERS, 1 := ucast readByteCount];
               r = convertToBigEndianRegisters bigEndian writeData (ucast writeCount) writeElemSize
                     (drop 10 tx) (word_of_int (int (unat (PDUSize p)) - 10));
               p1 = p\<lparr> TXPDUbuffer := take 10 tx @ snd r, PDUresponseHead := hd' \<rparr>
           in if \<not> fst r then (MB_EX_LIB_INVALID_DATA, p1\<lparr> err := MB_EX_LIB_INVALID_DATA \<rparr>)
              else (MB_EX_SUCCESS,
                    p1\<lparr> TXPDUbufferLen := ucast totalLen,
                        expectedResponseLen := ucast (2 + readByteCount) \<rparr>))"

subsection \<open>Response validation\<close>


section \<open>The pending queue (ADUQueue.h, ADUQueue.tpp)\<close>

text \<open>
  The queue holds pointers to ADUs of the owner's pool: an item is the index of an ADU
  in the pool, or \<open>None\<close> for \<open>nullptr\<close>.  The \<open>uint8_t\<close> indices and counters are
  natural numbers; they stay below the capacity, which is at most 255.
\<close>

record ADUQueue =
  head :: nat
  tail :: nat
  count :: nat
  queueSize :: nat
  items :: "nat option list"

definition ADUQueue_new :: ADUQueue where
  "ADUQueue_new = \<lparr> head = 0, tail = 0, count = 0, queueSize = 0, items = [] \<rparr>"


text \<open>\<open>ADUQueue::add\<close>, for a non-null item.\<close>

definition add :: "nat \<Rightarrow> ADUQueue \<Rightarrow> bool \<times> ADUQueue" where
  "add item q =
     (if count q \<ge> queueSize q then (False, q)
      else (True, q\<lparr> items := (items q)[tail q := Some item],
                      tail := (tail q + 1) mod queueSize q,
                      count := count q + 1 \<rparr>))"

text \<open>
  \<open>ADUQueue::read\<close>: the returned flag, the item stored through the reference
  parameter (\<open>None\<close> when nothing is stored) and the queue afterwards.
\<close>

definition read :: "ADUQueue \<Rightarrow> bool \<times> nat option \<times> ADUQueue" where
  "read q =
     (if count q = 0 \<or> items q ! head q = None then (False, None, q)
      else (True, items q ! head q,
            q\<lparr> items := (items q)[head q := None],
               head := (head q + 1) mod queueSize q,
               count := count q - 1 \<rparr>))"

text \<open>
  One round of the scan of \<open>ADUQueue::readReady\<close>, on the loop state
  \<open>(current, readyIndex, minDelay)\<close>.  \<open>on_ms\<close> comes from the external utils library:
  it is a parameter, called with the candidate's \<open>_queuedTime\<close> and \<open>_delayToSend\<close>
  (its third argument is \<open>false\<close>: the time stamp is not reset).
\<close>

definition readyStep ::
  "(uint32 \<Rightarrow> uint32 \<Rightarrow> bool) \<Rightarrow> 'a PDU_scheme list \<Rightarrow> ADUQueue \<Rightarrow> nat \<times> nat \<times> uint32 \<Rightarrow> nat \<times> nat \<times> uint32" where
  "readyStep on_ms pool q st =
     (case st of (current, readyIndex, minDelay) \<Rightarrow>
        (case items q ! current of
           None \<Rightarrow> ((current + 1) mod queueSize q, readyIndex, minDelay)
         | Some a \<Rightarrow>
             if on_ms (queuedTime (pool ! a)) (delayToSend (pool ! a))
                \<and> delayToSend (pool ! a) < minDelay
             then ((current + 1) mod queueSize q, current, delayToSend (pool ! a))
             else ((current + 1) mod queueSize q, readyIndex, minDelay)))"

definition readReady ::
  "(uint32 \<Rightarrow> uint32 \<Rightarrow> bool) \<Rightarrow> 'a PDU_scheme list \<Rightarrow> ADUQueue \<Rightarrow> bool \<times> nat option \<times> ADUQueue" where
  "readReady on_ms pool q =
     (if count q = 0 then (False, None, q)
      else
        let st = fold (\<lambda>i. readyStep on_ms pool q) [0 ..< count q] (head q, 255, 0xFFFFFFFF);
            readyIndex = fst (snd st)
        in if readyIndex = 255 then (False, None, q)
           else read (if readyIndex \<noteq> head q
                      then q\<lparr> items := (items q)[readyIndex := items q ! head q,
                                                   head q := items q ! readyIndex] \<rparr>
                      else q))"

text \<open>
  The live segment: the \<open>count\<close> slots from \<open>head\<close> on, around the ring.  A queue is
  well formed when its array has \<open>queueSize\<close> slots, \<open>queueSize\<close> fits a \<open>uint8_t\<close>
  below the sentinel index 255, and \<open>head\<close> and \<open>count\<close> are in range.
\<close>

definition live :: "ADUQueue \<Rightarrow> nat option list" where
  "live q = map (\<lambda>k. items q ! ((head q + k) mod queueSize q)) [0 ..< count q]"

definition wellFormed :: "ADUQueue \<Rightarrow> bool" where
  "wellFormed q \<longleftrightarrow>
     length (items q) = queueSize q \<and> queueSize q \<le> 255 \<and> count q \<le> queueSize q \<and> head q < queueSize q"

section \<open>The RTU ADU and the RTU master (ADURTU.h, ADURTU.cpp, ModbusRTUMaster.h, ModbusRTUMaster.cpp)\<close>

text \<open>
  Modelled from the spec: Crc16.cpp is not among the sources.  The spec gives CRC-16
  with polynomial \<open>0xA001\<close> (reflected) and seed \<open>0xFFFF\<close>, transmitted low byte first;
  \<open>crc16Set\<close> stores it behind the message.
\<close>

definition crc16_shift :: "uint16 \<Rightarrow> uint16" where
  "crc16_shift c = (if bit c 0 then drop_bit 1 c XOR 0xA001 else drop_bit 1 c)"

definition crc16_byte :: "uint8 \<Rightarrow> uint16 \<Rightarrow> uint16" where
  "crc16_byte b c = (crc16_shift ^^ 8) (c XOR ucast b)"

definition crc16 :: "uint8 list \<Rightarrow> uint16" where
  "crc16 bs = fold crc16_byte bs 0xFFFF"

text \<open>
  An \<open>ADURTU\<close> is a PDU with its frame around it.  The frame buffers are
  \<open>[slave] + PDU + CRC\<close>: byte 0 of each frame is a field of its own here, and the PDU's
  buffers are the rest of the frame (\<open>_PDUSize + 2\<close> bytes), as \<open>ADURTU::init\<close> sets
  the pointers.  \<open>_responseRTUHead\<close> has 1 + 7 bytes.
\<close>

record ADURTU = PDU +
  TXhead :: uint8
  RXhead :: uint8
  responseRTUHead0 :: uint8
  responseLen :: uint16
  slaves :: Slaves


definition ADURTU_clear :: "ADURTU \<Rightarrow> ADURTU" where
  "ADURTU_clear a = PDU_clear (a\<lparr> responseLen := 0 \<rparr>)"

definition setHead :: "uint8 \<Rightarrow> ADURTU \<Rightarrow> ADURTU" where
  "setHead sl a = a\<lparr> TXhead := sl, responseRTUHead0 := sl \<rparr>"

text \<open>
  \<open>ADURTU::setCRC\<close>: \<open>crc16Set(_TXADURTUframe, _TXPDUbufferLen + 1)\<close>.  The two CRC
  bytes go to frame offsets \<open>len\<close> and \<open>len + 1\<close>, that is to offsets
  \<open>_TXPDUbufferLen\<close> and \<open>_TXPDUbufferLen + 1\<close> of the PDU buffer.
\<close>

definition setCRC :: "ADURTU \<Rightarrow> ADURTU" where
  "setCRC a =
     (let n = unat (TXPDUbufferLen a);
          c = crc16 (TXhead a # take n (TXPDUbuffer a))
      in a\<lparr> TXPDUbuffer := (TXPDUbuffer a)[n := lowByte c, n + 1 := highByte c] \<rparr>)"

definition getSlaveId :: "ADURTU \<Rightarrow> uint8" where
  "getSlaveId a = TXhead a"

text \<open>The frame \<open>send\<close> puts on the wire: \<open>getTXADULen()\<close> bytes of \<open>_TXADURTUframe\<close>.\<close>

definition TXframe :: "ADURTU \<Rightarrow> uint8 list" where
  "TXframe a = take (1 + unat (TXPDUbufferLen a) + 2) (TXhead a # TXPDUbuffer a)"

text \<open>
  What a callback invocation shows: the callback that ran and the PDU it was handed
  (the \<open>PDU\<close> part of an ADU).
\<close>

datatype event = Fired modbusCallback PDU

text \<open>
  The master: its own fields, the pool \<open>_adu\<close>, the queue, and the environment it
  acts on: the global \<open>isBigEndian\<close>, the readings of \<open>millis()\<close> and \<open>micros()\<close>,
  the bytes written to the stream and the callback invocations so far.
\<close>

record ModbusRTUMaster =
  baud :: uint32
  byteTimeout :: uint32
  frameTimeout :: uint32
  lastByteTime :: uint32
  rtuQueueSize :: nat
  adu :: "ADURTU list"
  queue :: ADUQueue
  hostBigEndian :: bool
  millis :: uint32
  micros :: uint32
  written :: "uint8 list"
  events :: "event list"

definition ModbusRTUMaster_new :: ModbusRTUMaster where
  "ModbusRTUMaster_new = \<lparr> baud = 115200, byteTimeout = 0, frameTimeout = 0, lastByteTime = 0,
     rtuQueueSize = 0, adu = [], queue = ADUQueue_new, hostBigEndian = False, millis = 0,
     micros = 0, written = [], events = [] \<rparr>"

text \<open>
  \<open>ModbusRTUMaster::calcTimeout\<close>.  The operands of \<open>+\<close> are promoted to \<open>int\<close>; the
  two divisions are unsigned 32-bit divisions, and a zero divisor is undefined
  behaviour: \<open>None\<close>.  \<open>charTime\<close> is at most 1000000, so \<open>charTime * 1.5\<close> and
  \<open>charTime * 3.5\<close> are exact in binary floating point (also in AVR's 32-bit
  \<open>double\<close>), and the conversion to \<open>uint32_t\<close> drops the half.
\<close>

definition charTimeOf :: "nat \<Rightarrow> nat \<Rightarrow> nat" where
  "charTimeOf bd bits = 1000000 div (bd div bits)"

definition calcTimeout :: "uint8 \<Rightarrow> uint8 \<Rightarrow> uint8 \<Rightarrow> ModbusRTUMaster \<Rightarrow> ModbusRTUMaster option" where
  "calcTimeout data parity stopBit m =
     (let m0 = m\<lparr> lastByteTime := 0 \<rparr>
      in if unat (baud m) \<le> 19200
         then
           let bits = unat data + 1 + unat parity + unat stopBit
           in if unat (baud m) div bits = 0 then None
              else
                let charTime = charTimeOf (unat (baud m)) bits
                in Some (m0\<lparr> byteTimeout := of_nat (charTime * 3 div 2),
                              frameTimeout := of_nat (charTime * 7 div 2) \<rparr>)
         else Some (m0\<lparr> byteTimeout := 750, frameTimeout := 1750 \<rparr>))"

text \<open>\<open>ModbusRTUMaster::send\<close>: the only place that writes to the stream.\<close>

definition send :: "uint8 list \<Rightarrow> nat \<Rightarrow> ModbusRTUMaster \<Rightarrow> ModbusRTUMaster" where
  "send buffer len m = m\<lparr> written := written m @ take len buffer, lastByteTime := micros m \<rparr>"

definition updADU :: "nat \<Rightarrow> (ADURTU \<Rightarrow> ADURTU) \<Rightarrow> ModbusRTUMaster \<Rightarrow> ModbusRTUMaster" where
  "updADU i f m = m\<lparr> adu := (adu m)[i := f (adu m ! i)] \<rparr>"

text \<open>The stored callback of ADU \<open>i\<close> runs on that ADU: \<open>_callback(*this)\<close>.\<close>

definition fire :: "nat \<Rightarrow> ModbusRTUMaster \<Rightarrow> ModbusRTUMaster" where
  "fire i m = m\<lparr> events := events m @ [Fired (callback (adu m ! i)) (PDU.truncate (adu m ! i))] \<rparr>"

text \<open>
  \<open>ModbusRTUMaster::getFreePDU(cb, slave)\<close>: the index of the ADU handed out, or
  \<open>None\<close> for \<open>nullptr\<close> after the callback has run on a synthesized PDU.
\<close>

definition getFreePDU :: "modbusCallback \<Rightarrow> uint8 \<Rightarrow> ModbusRTUMaster \<Rightarrow> nat option \<times> ModbusRTUMaster" where
  "getFreePDU cb sl m =
     (case find (\<lambda>i. \<not> used (adu m ! i)) [0 ..< rtuQueueSize m] of
        Some i \<Rightarrow>
          (Some i, updADU i (\<lambda>a. a\<lparr> used := True, callback := cb,
                                    slaves := Slaves_clear (slaves a), slave := sl \<rparr>) m)
      | None \<Rightarrow>
          (None, m\<lparr> events := events m @
                      [Fired cb ((PDU_new sl)\<lparr> err := MB_EX_LIB_NO_MORE_FREE_ADU \<rparr>)] \<rparr>))"

text \<open>
  \<open>PDU::callCallback\<close>, \<open>ADURTU::repeatIfNeeded\<close> and \<open>ModbusRTUMaster::sendPDU\<close>
  call each other: a full queue makes \<open>sendPDU\<close> call \<open>callCallback\<close> again.  The
  first argument bounds the nesting of \<open>callCallback\<close>; \<open>None\<close> is running out of it.
  The ADU is named by its index in the pool; every pool ADU has its \<open>_modbusRTUMaster\<close>
  set by \<open>begin\<close>.  \<open>clear()\<close> is virtual: \<open>ADURTU::clear\<close>.
\<close>

function callCallback :: "nat \<Rightarrow> nat \<Rightarrow> ModbusRTUMaster \<Rightarrow> ModbusRTUMaster option"
  and repeatIfNeeded :: "nat \<Rightarrow> nat \<Rightarrow> ModbusRTUMaster \<Rightarrow> (bool \<times> ModbusRTUMaster) option"
  and sendPDU :: "nat \<Rightarrow> nat \<Rightarrow> uint8 \<Rightarrow> ModbusRTUMaster \<Rightarrow> (bool \<times> ModbusRTUMaster) option"
where
  "callCallback 0 i m = None"
| "callCallback (Suc n) i m =
     (if cb_valid (callback (adu m ! i))
      then (case repeatIfNeeded n i (fire i m) of
              None \<Rightarrow> None
            | Some r \<Rightarrow> Some (if fst r then snd r else updADU i ADURTU_clear (snd r)))
      else Some m)"
| "repeatIfNeeded n i m =
     (if \<not> Slaves_valid (slaves (adu m ! i)) then Some (False, m)
      else
        let prev = getActive (slaves (adu m ! i));
            g = getNext (slaves (adu m ! i));
            next = fst g;
            m1 = updADU i (\<lambda>a. a\<lparr> slaves := snd g \<rparr>) m
        in if next \<noteq> SLAVE_EOF \<and> next \<noteq> SLAVE_NULL
           then sendPDU n i next
                  (updADU i (\<lambda>a. a\<lparr> queuedTime := millis m,
                                      delayToSend := (if prev > next \<or> prev = next
                                                      then getRepeatDelay (slaves a)
                                                      else getDelay (slaves a)) \<rparr>) m1)
           else Some (False, m1))"
| "sendPDU n i sl m =
     (let m1 = updADU i (\<lambda>a. (setCRC (setHead sl a))\<lparr> responseLen := 0 \<rparr>) m;
          r = add i (queue m1)
      in if \<not> fst r
         then (case callCallback n i (updADU i (\<lambda>a. a\<lparr> err := MB_EX_LIB_QUEUE_FULL \<rparr>) m1) of
                 None \<Rightarrow> None
               | Some m2 \<Rightarrow> Some (False, m2))
         else Some (True, m1\<lparr> queue := snd r \<rparr>))"
  by pat_completeness auto
termination
  by (relation "measure (\<lambda>x. case x of
          Inl (n, i, m) \<Rightarrow> 3 * n
        | Inr (Inl (n, i, m)) \<Rightarrow> 3 * n + 2
        | Inr (Inr (n, i, sl, m)) \<Rightarrow> 3 * n + 1)") auto

declare repeatIfNeeded.simps [simp del] sendPDU.simps [simp del]


section \<open>The request API for one slave (ModbusMaster.h, ModbusMaster.cpp, ModbusMaster.tpp)\<close>

text \<open>
  Every single-slave request function of \<open>ModbusMaster\<close> has the same body around its
  builder: the guard on the slave ID, \<open>getFreePDU\<close>, the builder, then either the
  callback on the failed PDU followed by \<open>clear()\<close>, or \<open>sendPDU\<close>.  \<open>request\<close> is that
  body, with the guard's value and the builder as arguments; the virtual \<open>getFreePDU\<close>
  and \<open>sendPDU\<close> are the RTU master's.
\<close>

definition request ::
  "bool \<Rightarrow> (ADURTU \<Rightarrow> uint16 \<times> ADURTU) \<Rightarrow> nat \<Rightarrow> uint8 \<Rightarrow> modbusCallback
     \<Rightarrow> ModbusRTUMaster \<Rightarrow> ModbusRTUMaster option" where
  "request rejected create n sl cb m =
     (if rejected
      then Some (m\<lparr> events := events m @
                        [Fired cb ((PDU_new sl)\<lparr> err := MB_EX_LIB_INVALID_SLAVE \<rparr>)] \<rparr>)
      else
        (case getFreePDU cb sl m of
           (None, m1) \<Rightarrow> Some m1
         | (Some i, m1) \<Rightarrow>
             let r = create (adu m1 ! i);
                 m2 = m1\<lparr> adu := (adu m1)[i := snd r] \<rparr>
             in if fst r \<noteq> 0
                then Some (updADU i ADURTU_clear
                             (m2\<lparr> events := events m2 @ [Fired cb (PDU.truncate (snd r))] \<rparr>))
                else map_option snd (sendPDU n i sl m2)))"

definition readCoilsByBytes :: "nat \<Rightarrow> uint8 \<Rightarrow> uint16 \<Rightarrow> uint8 \<Rightarrow> modbusCallback \<Rightarrow> ModbusRTUMaster \<Rightarrow> ModbusRTUMaster option" where
  "readCoilsByBytes n sl address byteCount cb m =
     request (sl = 0) (createReadState MB_FC_READ_COILS address (ucast byteCount * 8) cb) n sl cb m"

definition readCoil :: "nat \<Rightarrow> uint8 \<Rightarrow> uint16 \<Rightarrow> modbusCallback \<Rightarrow> ModbusRTUMaster \<Rightarrow> ModbusRTUMaster option" where
  "readCoil n sl address cb m =
     request (sl = 0) (createReadState MB_FC_READ_COILS address 1 cb) n sl cb m"

definition readCoils :: "nat \<Rightarrow> uint8 \<Rightarrow> uint16 \<Rightarrow> uint16 \<Rightarrow> modbusCallback \<Rightarrow> ModbusRTUMaster \<Rightarrow> ModbusRTUMaster option" where
  "readCoils n sl address coilCount cb m =
     request (sl = 0) (createReadState MB_FC_READ_COILS address coilCount cb) n sl cb m"

definition readDiscreteInput :: "nat \<Rightarrow> uint8 \<Rightarrow> uint16 \<Rightarrow> modbusCallback \<Rightarrow> ModbusRTUMaster \<Rightarrow> ModbusRTUMaster option" where
  "readDiscreteInput n sl address cb m =
     request (sl = 0) (createReadState MB_FC_READ_DISCRETE_INPUTS address 1 cb) n sl cb m"

definition readDiscreteInputsByBytes :: "nat \<Rightarrow> uint8 \<Rightarrow> uint16 \<Rightarrow> uint8 \<Rightarrow> modbusCallback \<Rightarrow> ModbusRTUMaster \<Rightarrow> ModbusRTUMaster option" where
  "readDiscreteInputsByBytes n sl address byteCount cb m =
     request (sl = 0) (createReadState MB_FC_READ_DISCRETE_INPUTS address (ucast byteCount * 8) cb) n sl cb m"

definition readDiscreteInputs :: "nat \<Rightarrow> uint8 \<Rightarrow> uint16 \<Rightarrow> uint16 \<Rightarrow> modbusCallback \<Rightarrow> ModbusRTUMaster \<Rightarrow> ModbusRTUMaster option" where
  "readDiscreteInputs n sl address coilCount cb m =
     request (sl = 0) (createReadState MB_FC_READ_DISCRETE_INPUTS address coilCount cb) n sl cb m"

definition readExceptionStatus :: "nat \<Rightarrow> uint8 \<Rightarrow> modbusCallback \<Rightarrow> ModbusRTUMaster \<Rightarrow> ModbusRTUMaster option" where
  "readExceptionStatus n sl cb m =
     request (sl = 0) (createReadExceptionStatus cb) n sl cb m"

definition readWriteMultipleRegisters ::
  "nat \<Rightarrow> nat \<Rightarrow> nat \<Rightarrow> uint8 \<Rightarrow> uint16 \<Rightarrow> uint8 \<Rightarrow> uint16 \<Rightarrow> uint8 list \<Rightarrow> uint16 \<Rightarrow> modbusCallback
     \<Rightarrow> ModbusRTUMaster \<Rightarrow> ModbusRTUMaster option" where
  "readWriteMultipleRegisters n sizeofR sizeofW sl readAddr readCount writeAddr writeData writeCount cb m =
     request (sl = 0)
       (createReadWriteMultipleRegisters (hostBigEndian m) sizeofR sizeofW readAddr readCount
          writeAddr writeData writeCount cb) n sl cb m"

definition readHoldingRegister :: "nat \<Rightarrow> nat \<Rightarrow> uint8 \<Rightarrow> uint16 \<Rightarrow> modbusCallback \<Rightarrow> ModbusRTUMaster \<Rightarrow> ModbusRTUMaster option" where
  "readHoldingRegister n sizeofT sl addr cb m =
     request (sl = 0) (createReadRegisters sizeofT MB_FC_READ_HOLDING_REGISTERS addr 1 cb) n sl cb m"

definition readHoldingRegisters :: "nat \<Rightarrow> nat \<Rightarrow> uint8 \<Rightarrow> uint16 \<Rightarrow> uint8 \<Rightarrow> modbusCallback \<Rightarrow> ModbusRTUMaster \<Rightarrow> ModbusRTUMaster option" where
  "readHoldingRegisters n sizeofT sl addr cnt cb m =
     request (sl = 0) (createReadRegisters sizeofT MB_FC_READ_HOLDING_REGISTERS addr cnt cb) n sl cb m"

definition readInputRegister :: "nat \<Rightarrow> nat \<Rightarrow> uint8 \<Rightarrow> uint16 \<Rightarrow> modbusCallback \<Rightarrow> ModbusRTUMaster \<Rightarrow> ModbusRTUMaster option" where
  "readInputRegister n sizeofT sl addr cb m =
     request (sl = 0) (createReadRegisters sizeofT MB_FC_READ_INPUT_REGISTERS addr 1 cb) n sl cb m"

definition readInputRegisters :: "nat \<Rightarrow> nat \<Rightarrow> uint8 \<Rightarrow> uint16 \<Rightarrow> uint8 \<Rightarrow> modbusCallback \<Rightarrow> ModbusRTUMaster \<Rightarrow> ModbusRTUMaster option" where
  "readInputRegisters n sizeofT sl addr cnt cb m =
     request (sl = 0) (createReadRegisters sizeofT MB_FC_READ_INPUT_REGISTERS addr cnt cb) n sl cb m"

text \<open>
  The single-slave read calls as data: which function, with which arguments.
  \<open>fnCode\<close> is the function code the call's builder uses; \<open>issue\<close> makes the call.
\<close>

datatype ReadCall =
    ReadCoilsByBytes uint16 uint8
  | ReadCoil uint16
  | ReadCoils uint16 uint16
  | ReadDiscreteInput uint16
  | ReadDiscreteInputsByBytes uint16 uint8
  | ReadDiscreteInputs uint16 uint16
  | ReadExceptionStatus
  | ReadWriteMultipleRegisters nat nat uint16 uint8 uint16 "uint8 list" uint16
  | ReadHoldingRegister nat uint16
  | ReadHoldingRegisters nat uint16 uint8
  | ReadInputRegister nat uint16
  | ReadInputRegisters nat uint16 uint8

fun fnCode :: "ReadCall \<Rightarrow> uint8" where
  "fnCode (ReadCoilsByBytes a b) = MB_FC_READ_COILS"
| "fnCode (ReadCoil a) = MB_FC_READ_COILS"
| "fnCode (ReadCoils a c) = MB_FC_READ_COILS"
| "fnCode (ReadDiscreteInput a) = MB_FC_READ_DISCRETE_INPUTS"
| "fnCode (ReadDiscreteInputsByBytes a b) = MB_FC_READ_DISCRETE_INPUTS"
| "fnCode (ReadDiscreteInputs a c) = MB_FC_READ_DISCRETE_INPUTS"
| "fnCode ReadExceptionStatus = MB_FC_READ_EXCEPTION_STATUS"
| "fnCode (ReadWriteMultipleRegisters sr sw ra rc wa wd wc) = MB_FC_READ_AND_WRITE_REGISTERS"
| "fnCode (ReadHoldingRegister st a) = MB_FC_READ_HOLDING_REGISTERS"
| "fnCode (ReadHoldingRegisters st a c) = MB_FC_READ_HOLDING_REGISTERS"
| "fnCode (ReadInputRegister st a) = MB_FC_READ_INPUT_REGISTERS"
| "fnCode (ReadInputRegisters st a c) = MB_FC_READ_INPUT_REGISTERS"

fun issue :: "nat \<Rightarrow> ReadCall \<Rightarrow> uint8 \<Rightarrow> modbusCallback \<Rightarrow> ModbusRTUMaster \<Rightarrow> ModbusRTUMaster option" where
  "issue n (ReadCoilsByBytes a b) sl cb m = readCoilsByBytes n sl a b cb m"
| "issue n (ReadCoil a) sl cb m = readCoil n sl a cb m"
| "issue n (ReadCoils a c) sl cb m = readCoils n sl a c cb m"
| "issue n (ReadDiscreteInput a) sl cb m = readDiscreteInput n sl a cb m"
| "issue n (ReadDiscreteInputsByBytes a b) sl cb m = readDiscreteInputsByBytes n sl a b cb m"
| "issue n (ReadDiscreteInputs a c) sl cb m = readDiscreteInputs n sl a c cb m"
| "issue n ReadExceptionStatus sl cb m = readExceptionStatus n sl cb m"
| "issue n (ReadWriteMultipleRegisters sr sw ra rc wa wd wc) sl cb m =
     readWriteMultipleRegisters n sr sw sl ra rc wa wd wc cb m"
| "issue n (ReadHoldingRegister st a) sl cb m = readHoldingRegister n st sl a cb m"
| "issue n (ReadHoldingRegisters st a c) sl cb m = readHoldingRegisters n st sl a c cb m"
| "issue n (ReadInputRegister st a) sl cb m = readInputRegister n st sl a cb m"
| "issue n (ReadInputRegisters st a c) sl cb m = readInputRegisters n st sl a c cb m"

(*PROPERTIES*)

section \<open>Properties of the slave set\<close>

subsection \<open>Membership and the scanning loop\<close>

lemma isSet_bit:
  "isSet s j \<longleftrightarrow> j \<le> 247 \<and> bit (mask_bits s ! (unat j div 8)) (unat j mod 8)"
  unfolding isSet_def MB_MAX_SLAVE_ID_def bit_iff_and_push_bit_not_eq_0 by auto

lemma orBit_bit:
  "b < length m \<Longrightarrow> i < 8 \<Longrightarrow>
   bit (orBit b i m ! b') k \<longleftrightarrow> bit (m ! b') k \<or> (b' = b \<and> k = i)"
  by (auto simp: orBit_def nth_list_update bit_simps)

lemma length_orBit [simp]: "length (orBit b i m) = length m"
  by (simp add: orBit_def)

lemma unat_div_mod_eq:
  "unat (j :: uint8) div 8 = unat (i :: uint8) div 8 \<and> unat j mod 8 = unat i mod 8 \<longleftrightarrow> j = i"
  by (metis div_mult_mod_eq word_unat_eq_iff)

lemma length_mask_set_id [simp]: "length (mask_bits (set_id i s)) = length (mask_bits s)"
  by (simp add: set_id_def)

lemma isSet_set_id:
  assumes "length (mask_bits s) = 32"
  shows "isSet (set_id i s) j \<longleftrightarrow> (i \<le> 247 \<and> j = i) \<or> isSet s j"
proof (cases "i \<le> 247")
  case False
  then show ?thesis by (auto simp: set_id_def MB_MAX_SLAVE_ID_def not_le)
next
  case True
  then have "unat i \<le> 247" by (simp add: word_le_nat_alt)
  then have b: "unat i div 8 < length (mask_bits s)" using assms by simp
  have "set_id i s = s\<lparr> mask_bits := orBit (unat i div 8) (unat i mod 8) (mask_bits s) \<rparr>"
    using True by (simp add: set_id_def MB_MAX_SLAVE_ID_def not_less)
  then show ?thesis
    using True orBit_bit [OF b, of "unat i mod 8" "unat j div 8" "unat j mod 8"] unat_div_mod_eq [of j i]
    by (auto simp: isSet_bit)
qed

lemma isSet_set_list:
  "length (mask_bits s) = 32 \<Longrightarrow> isSet (set_list ids s) j \<longleftrightarrow> (j \<in> set ids \<and> j \<le> 247) \<or> isSet s j"
proof (induction ids arbitrary: s)
  case Nil
  then show ?case by (simp add: set_list_def)
next
  case (Cons a ids)
  have "isSet (set_list ids (set_id a s)) j \<longleftrightarrow> (j \<in> set ids \<and> j \<le> 247) \<or> isSet (set_id a s) j"
    using Cons.prems by (intro Cons.IH) simp
  then show ?case using Cons.prems by (auto simp: set_list_def isSet_set_id)
qed

lemma isSet_Slaves_new [simp]: "\<not> isSet Slaves_new j"
proof -
  have "unat j < 256" using unsigned_less [of j] by simp
  then have "unat j div 8 < 32" by simp
  then show ?thesis by (simp add: isSet_bit Slaves_new_def)
qed

lemma scanUp_None:
  "scanUp s i = None \<longleftrightarrow> (\<forall>k. i \<le> k \<and> k \<le> 247 \<longrightarrow> \<not> isSet s (of_nat k))"
proof (induction s i rule: scanUp.induct)
  case (1 s i)
  show ?case
  proof (cases "i \<le> 247 \<and> \<not> isSet s (of_nat i)")
    case True
    then have "scanUp s i = scanUp s (Suc i)" by (simp add: scanUp.simps [of s i])
    moreover have "(\<forall>k. Suc i \<le> k \<and> k \<le> 247 \<longrightarrow> \<not> isSet s (of_nat k)) \<longleftrightarrow>
                   (\<forall>k. i \<le> k \<and> k \<le> 247 \<longrightarrow> \<not> isSet s (of_nat k))"
      using True by (metis Suc_leD le_antisym not_less_eq_eq)
    ultimately show ?thesis using 1 True by simp
  next
    case False
    then show ?thesis by (auto simp: scanUp.simps [of s i])
  qed
qed

lemma scanUp_Some:
  "scanUp s i = Some r \<Longrightarrow>
     \<exists>k. r = of_nat k \<and> i \<le> k \<and> k \<le> 247 \<and> isSet s r \<and> (\<forall>k'. i \<le> k' \<and> k' < k \<longrightarrow> \<not> isSet s (of_nat k'))"
proof (induction s i rule: scanUp.induct)
  case (1 s i)
  show ?case
  proof (cases "i \<le> 247")
    case False
    with "1.prems" show ?thesis by (simp add: scanUp.simps [of s i])
  next
    case True
    show ?thesis
    proof (cases "isSet s (of_nat i)")
      case True
      with \<open>i \<le> 247\<close> "1.prems" have "r = of_nat i" by (simp add: scanUp.simps [of s i])
      with True \<open>i \<le> 247\<close> show ?thesis by (intro exI [of _ i]) auto
    next
      case False
      with \<open>i \<le> 247\<close> "1.prems" have "scanUp s (Suc i) = Some r" by (simp add: scanUp.simps [of s i])
      from "1.IH" [OF \<open>i \<le> 247\<close> False this] obtain k where
        k: "r = of_nat k" "Suc i \<le> k" "k \<le> 247" "isSet s r"
           "\<forall>k'. Suc i \<le> k' \<and> k' < k \<longrightarrow> \<not> isSet s (of_nat k')" by blast
      have "\<forall>k'. i \<le> k' \<and> k' < k \<longrightarrow> \<not> isSet s (of_nat k')"
        using k(5) False by (metis Suc_leI le_neq_implies_less)
      with k show ?thesis by (intro exI [of _ k]) auto
    qed
  qed
qed

lemma isSet_le: "isSet s j \<Longrightarrow> j \<le> 247"
  by (simp add: isSet_bit)

lemma unat_of_nat_247: "k \<le> 247 \<Longrightarrow> unat (of_nat k :: uint8) = k"
  by (simp add: unat_of_nat)

lemma scanUp_word_None:
  "scanUp s n = None \<longleftrightarrow> (\<forall>j. isSet s j \<longrightarrow> unat j < n)"
proof
  assume "scanUp s n = None"
  then have a: "\<forall>k. n \<le> k \<and> k \<le> 247 \<longrightarrow> \<not> isSet s (of_nat k)" by (simp add: scanUp_None)
  show "\<forall>j. isSet s j \<longrightarrow> unat j < n"
  proof (intro allI impI)
    fix j assume j: "isSet s j"
    then have "unat j \<le> 247" using isSet_le [OF j] by (simp add: word_le_nat_alt)
    moreover have "of_nat (unat j) = j" by simp
    ultimately show "unat j < n" using a j by (metis not_le_imp_less)
  qed
next
  assume a: "\<forall>j. isSet s j \<longrightarrow> unat j < n"
  have "\<forall>k. n \<le> k \<and> k \<le> 247 \<longrightarrow> \<not> isSet s (of_nat k)"
  proof (intro allI impI)
    fix k assume k: "n \<le> k \<and> k \<le> 247"
    then have "unat (of_nat k :: uint8) = k" by (simp add: unat_of_nat_247)
    with a k show "\<not> isSet s (of_nat k)" by (metis not_le)
  qed
  then show "scanUp s n = None" by (simp add: scanUp_None)
qed

lemma scanUp_word_Some:
  assumes "scanUp s n = Some r"
  shows "n \<le> unat r \<and> r \<le> 247 \<and> isSet s r \<and> (\<forall>j. isSet s j \<and> n \<le> unat j \<longrightarrow> r \<le> j)"
proof -
  from scanUp_Some [OF assms] obtain k where
    k: "r = of_nat k" "n \<le> k" "k \<le> 247" "isSet s r"
       "\<forall>k'. n \<le> k' \<and> k' < k \<longrightarrow> \<not> isSet s (of_nat k')" by blast
  have ur: "unat r = k" using k(1,3) by (simp add: unat_of_nat_247)
  have "r \<le> j" if "isSet s j" "n \<le> unat j" for j
  proof (rule ccontr)
    assume "\<not> r \<le> j"
    then have "unat j < k" using ur by (simp add: word_le_nat_alt)
    with k(5) that(2) have "\<not> isSet s (of_nat (unat j))" by blast
    with that(1) show False by simp
  qed
  with k ur isSet_le [OF k(4)] show ?thesis by auto
qed

lemma scanUp_eqI:
  assumes "isSet s z" "n \<le> unat z" "\<forall>j. isSet s j \<and> n \<le> unat j \<longrightarrow> z \<le> j"
  shows "scanUp s n = Some z"
proof (cases "scanUp s n")
  case None
  with assms(1,2) show ?thesis by (auto simp: scanUp_word_None)
next
  case (Some r)
  from scanUp_word_Some [OF Some] assms have "r \<le> z" "z \<le> r" by auto
  with Some show ?thesis by simp
qed

lemma isSet_active_update [simp]: "isSet (s\<lparr> active := a \<rparr>) j = isSet s j"
  by (simp add: isSet_def)

lemma scanUp_cong_mask: "mask_bits s = mask_bits t \<Longrightarrow> scanUp s n = scanUp t n"
proof (induction s n rule: scanUp.induct)
  case (1 s i)
  have "isSet s = isSet t" using "1.prems" by (simp add: isSet_def fun_eq_iff)
  then show ?case using 1
    by (simp add: scanUp.simps [of s i] scanUp.simps [of t i])
qed

lemma scanStart_after:
  "a \<le> 247 \<Longrightarrow> scanStart (s\<lparr> active := a \<rparr>) = Suc (unat a)"
proof -
  assume a: "a \<le> 247"
  then have "unat a \<le> 247" by (simp add: word_le_nat_alt)
  then have "unat (a + 1) = unat a + 1" by (simp add: unat_word_ariths)
  moreover have "a \<noteq> 255" using a by auto
  ultimately show ?thesis by (simp add: scanStart_def SLAVE_BOF_def)
qed

lemma getNexts_iter:
  assumes "sorted_wrt (<) (ys @ zs)"
    and "\<forall>j. isSet s j \<longleftrightarrow> j \<in> set (ys @ zs)"
    and "active s = (if ys = [] then SLAVE_BOF else last ys)"
  shows "getNexts (length zs) s = (zs, s\<lparr> active := (if zs = [] then active s else last zs) \<rparr>)"
  using assms
proof (induction zs arbitrary: ys s)
  case Nil
  then show ?case by simp
next
  case (Cons z zs)
  have mem: "isSet s z" using Cons.prems(2) by simp
  have start: "scanStart s \<le> unat z \<and> (\<forall>j \<in> set ys. unat j < scanStart s)"
  proof (cases "ys = []")
    case True
    then show ?thesis using Cons.prems(3) by (simp add: scanStart_def)
  next
    case False
    have l: "isSet s (last ys)" using False Cons.prems(2) by simp
    have "s = s\<lparr> active := last ys \<rparr>" using Cons.prems(3) False by simp
    then have st: "scanStart s = Suc (unat (last ys))"
      using scanStart_after [OF isSet_le [OF l], of s] by simp
    have "last ys < z" using Cons.prems(1) False by (auto simp: sorted_wrt_append)
    moreover have "\<forall>j \<in> set ys. j \<le> last ys"
    proof -
      have "sorted_wrt (<) (butlast ys @ [last ys])" using Cons.prems(1) False
        by (simp add: sorted_wrt_append)
      then have "\<forall>j \<in> set (butlast ys). j < last ys" by (simp add: sorted_wrt_append)
      moreover have "set ys = set (butlast ys) \<union> {last ys}"
        using False by (metis append_butlast_last_id list.simps(15) set_append empty_set)
      ultimately show ?thesis by auto
    qed
    ultimately show ?thesis using st by (auto simp: word_less_nat_alt word_le_nat_alt)
  qed
  have least: "\<forall>j. isSet s j \<and> scanStart s \<le> unat j \<longrightarrow> z \<le> j"
  proof (intro allI impI)
    fix j assume j: "isSet s j \<and> scanStart s \<le> unat j"
    then have "j \<in> set ys \<or> j = z \<or> j \<in> set zs" using Cons.prems(2) by auto
    moreover have "j \<notin> set ys" using start j by auto
    moreover have "\<forall>k \<in> set zs. z < k" using Cons.prems(1) by (auto simp: sorted_wrt_append)
    ultimately show "z \<le> j" by auto
  qed
  have gn: "getNext s = (z, s\<lparr> active := z \<rparr>)"
    using scanUp_eqI [OF mem conjunct1 [OF start] least] by (simp add: getNext_def)
  have "getNexts (length zs) (s\<lparr> active := z \<rparr>) =
          (zs, s\<lparr> active := z \<rparr>\<lparr> active := (if zs = [] then active (s\<lparr> active := z \<rparr>) else last zs) \<rparr>)"
    using Cons.prems by (intro Cons.IH [of "ys @ [z]"]) auto
  then show ?case using gn by simp
qed

subsection \<open>Iteration order\<close>

lemma length_mask_set_list [simp]: "length (mask_bits (set_list ids s)) = length (mask_bits s)"
  by (induction ids arbitrary: s) (simp_all add: set_list_def)

lemma set_list_fields [simp]:
  "active (set_list ids s) = active s" "repeatDelay (set_list ids s) = repeatDelay s"
  by (induction ids arbitrary: s) (simp_all add: set_list_def set_id_def)

text \<open>
  Claim C5.  Load a fresh slave set with \<open>set(i)\<close> for every member of a non-empty
  list of IDs, all at most 247 (any inter-slave delay \<open>d\<close>, any repeat delay \<open>r\<close>).
  As many \<open>getNext\<close> calls as there are distinct IDs return exactly these IDs in
  increasing order.  The call after that returns \<open>SLAVE_EOF\<close> when repetition is off
  (\<open>r < 0\<close>) and the smallest ID when it is on.
\<close>

theorem C5_getNext_iterates:
  assumes "ids \<noteq> []" and "\<forall>i \<in> set ids. i \<le> MB_MAX_SLAVE_ID"
  shows "(let s = set_list ids (setDelay d (setRepeatDelay r Slaves_new));
              (out, s') = getNexts (card (set ids)) s
          in out = sorted_list_of_set (set ids) \<and>
             fst (getNext s') = (if sint r < 0 then SLAVE_EOF else Min (set ids)))"
proof -
  define s where "s = set_list ids (setDelay d (setRepeatDelay r Slaves_new))"
  define xs where "xs = sorted_list_of_set (set ids)"
  have xs: "sorted_wrt (<) xs" "set xs = set ids" "length xs = card (set ids)" "xs \<noteq> []"
    using assms(1) by (auto simp: xs_def strict_sorted_iff)
  have len: "length (mask_bits (setDelay d (setRepeatDelay r Slaves_new))) = 32"
    by (simp add: setDelay_def setRepeatDelay_def Slaves_new_def)
  have base: "\<not> isSet (setDelay d (setRepeatDelay r Slaves_new)) j" for j
  proof -
    have "isSet (setDelay d (setRepeatDelay r Slaves_new)) j = isSet Slaves_new j"
      by (simp add: isSet_def setDelay_def setRepeatDelay_def)
    then show ?thesis by simp
  qed
  have mem: "isSet s j \<longleftrightarrow> j \<in> set xs" for j
    using isSet_set_list [OF len, of ids j] base assms(2)
    by (auto simp: s_def xs MB_MAX_SLAVE_ID_def)
  have act: "active s = SLAVE_BOF" and rep: "repeatDelay s = r"
    by (simp_all add: s_def setDelay_def setRepeatDelay_def Slaves_new_def)
  have it: "getNexts (length xs) s = (xs, s\<lparr> active := last xs \<rparr>)"
    using getNexts_iter [of "[]" xs s] xs mem act by simp
  define s' where "s' = s\<lparr> active := last xs \<rparr>"
  have lastmem: "isSet s (last xs)" using mem xs(4) by simp
  have upper: "\<forall>j \<in> set xs. j \<le> last xs"
  proof -
    have "sorted_wrt (<) (butlast xs @ [last xs])" using xs by simp
    then have "\<forall>j \<in> set (butlast xs). j < last xs" by (simp add: sorted_wrt_append)
    moreover have "set xs = set (butlast xs) \<union> {last xs}"
      using xs(4) by (metis append_butlast_last_id list.simps(15) set_append empty_set)
    ultimately show ?thesis by auto
  qed
  have st: "scanStart s' = Suc (unat (last xs))"
    unfolding s'_def by (rule scanStart_after [OF isSet_le [OF lastmem]])
  have none: "scanUp s' (scanStart s') = None"
    unfolding scanUp_word_None st
    using upper mem by (auto simp: s'_def word_le_nat_alt less_Suc_eq_le)
  have hdmem: "isSet s' (hd xs)" using mem xs(4) by (simp add: s'_def)
  have lower: "\<forall>j. isSet s' j \<and> 0 \<le> unat j \<longrightarrow> hd xs \<le> j"
  proof -
    have "sorted_wrt (<) (hd xs # tl xs)" using xs by simp
    then have "\<forall>j \<in> set (tl xs). hd xs < j" by simp
    moreover have "set xs = {hd xs} \<union> set (tl xs)"
      using xs(4) by (metis list.collapse list.simps(15) insert_is_Un)
    ultimately show ?thesis using mem by (auto simp: s'_def)
  qed
  have first: "scanUp s' 0 = Some (hd xs)"
    by (rule scanUp_eqI [OF hdmem _ lower]) simp
  have hdmin: "hd xs = Min (set ids)"
  proof (rule Min_eqI [symmetric])
    show "finite (set ids)" by simp
    show "hd xs \<le> y" if "y \<in> set ids" for y
      using that lower mem xs(2) by (auto simp: s'_def)
    show "hd xs \<in> set ids" using xs(2,4) by (metis list.set_sel(1))
  qed
  have rp: "getRepeat s' \<longleftrightarrow> \<not> sint r < 0"
    using rep by (auto simp: getRepeat_def s'_def)
  have "fst (getNext s') = (if sint r < 0 then SLAVE_EOF else Min (set ids))"
    using none first rp hdmin by (simp add: getNext_def)
  then show ?thesis
    using it xs(3) by (simp add: s_def [symmetric] s'_def [symmetric] xs_def [symmetric])
qed

theorem C5_getNext_iterates_witness:
  "(let s = set_list [5, 1, 247] (setDelay 0 (setRepeatDelay 10 Slaves_new));
        (out, s') = getNexts (card (set [5, 1, 247 :: uint8])) s
    in out = sorted_list_of_set (set [5, 1, 247]) \<and> fst (getNext s') = Min (set [5, 1, 247]))
   \<and> fst (getNexts 3 (set_list [5, 1, 247] (setDelay 0 (setRepeatDelay 10 Slaves_new)))) = [1, 5, 247]"
proof -
  have h: "\<forall>i \<in> set [5, 1, 247 :: uint8]. i \<le> MB_MAX_SLAVE_ID"
    by (simp add: MB_MAX_SLAVE_ID_def)
  have e: "fst (getNexts 3 (set_list [5, 1, 247] (setDelay 0 (setRepeatDelay 10 Slaves_new)))) = [1, 5, 247]"
    by code_simp
  show ?thesis
    using C5_getNext_iterates [of "[5, 1, 247]" 0 10, OF _ h] e by simp
qed

subsection \<open>Reserved IDs never enter the bitmap\<close>


lemma fold_orBit_other:
  "b \<noteq> k \<Longrightarrow> fold (orBit b) is m ! k = m ! k \<and> length (fold (orBit b) is m) = length m"
  by (induction "is" arbitrary: m) (simp_all add: orBit_def)

lemma fold_memset_other:
  "k \<notin> set bs \<Longrightarrow> fold (\<lambda>b m. m[b := v]) bs m ! k = m ! k \<and> length (fold (\<lambda>b m. m[b := v]) bs m) = length m"
  by (induction bs arbitrary: m) auto

lemma unat_div8_le_30: "(i :: uint8) \<le> 247 \<Longrightarrow> unat i div 8 \<le> 30"
  by (simp add: word_le_nat_alt)

lemma maskInv_set_id: "maskInv s \<Longrightarrow> maskInv (set_id i s)"
  using unat_div8_le_30 [of i]
  by (auto simp: maskInv_def set_id_def orBit_def MB_MAX_SLAVE_ID_def not_less)

lemma maskInv_set_list: "maskInv s \<Longrightarrow> maskInv (set_list ids s)"
  by (induction ids arbitrary: s) (simp_all add: set_list_def maskInv_set_id)

lemma maskInv_set_range:
  assumes "maskInv s" shows "maskInv (set_range b e s)"
proof (cases "b > e \<or> e > MB_MAX_SLAVE_ID")
  case True
  then show ?thesis using assms by (auto simp: set_range_def)
next
  case False
  then have e: "unat e div 8 \<le> 30" and be: "unat b div 8 \<le> unat e div 8"
    using unat_div8_le_30 [of e] by (auto simp: MB_MAX_SLAVE_ID_def not_less word_le_nat_alt div_le_mono)
  have n1: "unat b div 8 \<noteq> 31" "unat e div 8 \<noteq> 31" using e be by auto
  have n2: "31 \<notin> set [unat b div 8 + 1 ..< unat e div 8]" using e by auto
  define m1 where "m1 = fold (orBit (unat b div 8)) [unat b mod 8 ..< 8] (mask_bits s)"
  define m2 where "m2 = (if unat e div 8 > unat b div 8 + 1
                       then fold (\<lambda>b m. m[b := 0xFF]) [unat b div 8 + 1 ..< unat e div 8] m1
                       else m1)"
  define m3 where "m3 = fold (orBit (unat e div 8)) [0 ..< Suc (unat e mod 8)] m2"
  define m0 where "m0 = fold (orBit (unat b div 8)) [unat b mod 8 ..< Suc (unat e mod 8)] (mask_bits s)"
  have i0: "length m0 = 32 \<and> m0 ! 31 = 0"
    unfolding m0_def using assms fold_orBit_other [OF n1(1)] by (simp add: maskInv_def del: upt_Suc)
  have i1: "length m1 = 32 \<and> m1 ! 31 = 0"
    unfolding m1_def using assms fold_orBit_other [OF n1(1)] by (simp add: maskInv_def del: upt_Suc)
  have i2: "length m2 = 32 \<and> m2 ! 31 = 0"
    unfolding m2_def using i1 fold_memset_other [OF n2, of 255 m1] by simp
  have i3: "length m3 = 32 \<and> m3 ! 31 = 0"
    unfolding m3_def using i2 fold_orBit_other [OF n1(2)] by (simp del: upt_Suc)
  have "set_range b e s = (if unat b div 8 = unat e div 8 then s\<lparr> mask_bits := m0 \<rparr> else s\<lparr> mask_bits := m3 \<rparr>)"
    using False unfolding set_range_def Let_def m0_def m1_def m2_def m3_def by (simp del: upt_Suc)
  then show ?thesis using i0 i3 by (simp add: maskInv_def)
qed

lemma maskInv_remove_id: "maskInv s \<Longrightarrow> maskInv (remove_id i s)"
  using unat_div8_le_30 [of i]
  by (auto simp: maskInv_def remove_id_def MB_MAX_SLAVE_ID_def not_less)

lemma mask_getNext [simp]: "mask_bits (snd (getNext s)) = mask_bits s"
  by (simp add: getNext_def split: option.splits)

lemma maskInv_applyOp: "maskInv s \<Longrightarrow> maskInv (applyOp op s)"
  by (cases op)
     (simp_all add: maskInv_set_id maskInv_set_list maskInv_set_range maskInv_remove_id,
      simp_all add: maskInv_def Slaves_clear_def setDelay_def setRepeatDelay_def resetActive_def)

lemma maskInv_applyOps: "maskInv s \<Longrightarrow> maskInv (applyOps ops s)"
  by (induction ops arbitrary: s) (simp_all add: applyOps_def maskInv_applyOp)

lemma maskInv_new: "maskInv Slaves_new"
  by (simp add: maskInv_def Slaves_new_def)

lemma getNext_result:
  "fst (getNext s) = SLAVE_EOF \<or> (fst (getNext s) \<le> MB_MAX_SLAVE_ID \<and> isSet s (fst (getNext s)))"
  by (auto simp: getNext_def MB_MAX_SLAVE_ID_def split: option.splits dest: scanUp_word_Some)

lemma peekWrap_isSet:
  "peekWrap s i = Some r \<Longrightarrow> r = SLAVE_EOF \<or> isSet s r"
proof -
  assume a: "peekWrap s i = Some r"
  show ?thesis
    by (rule peekWrap.raw_induct [where P = "\<lambda>s i r. r = SLAVE_EOF \<or> isSet s r", OF _ a])
       (auto split: if_splits)
qed

lemma peekWrap_result:
  "peekWrap s i = Some r \<Longrightarrow> r = SLAVE_EOF \<or> (r \<le> MB_MAX_SLAVE_ID \<and> isSet s r)"
  using peekWrap_isSet [of s i r] isSet_le [of s r] by (auto simp: MB_MAX_SLAVE_ID_def)

lemma peek_result:
  "peek s = Some r \<Longrightarrow> r = SLAVE_EOF \<or> (r \<le> MB_MAX_SLAVE_ID \<and> isSet s r)"
  by (auto simp: peek_def MB_MAX_SLAVE_ID_def split: option.splits if_splits
           dest: scanUp_word_Some peekWrap_result)

text \<open>
  Claim C9.  In every state reached from a fresh slave set by any sequence of the class's
  mutating operations, the bitmap has its 32 bytes and the byte of IDs 248..255 is zero;
  \<open>isSet\<close> is false above 247 and \<open>set\<close> of such an ID changes nothing; the range
  \<open>set\<close> changes nothing when \<open>end > 247\<close> or \<open>begin > end\<close>; \<open>getNext\<close> returns
  \<open>SLAVE_EOF\<close> or a member that is at most 247, and so does \<open>peek\<close> whenever it
  returns.
\<close>

theorem C9_no_reserved_ids:
  "(let s = applyOps ops Slaves_new in
      length (mask_bits s) = 32 \<and> mask_bits s ! 31 = 0 \<and>
      (\<forall>i. MB_MAX_SLAVE_ID < i \<longrightarrow> \<not> isSet s i \<and> set_id i s = s) \<and>
      (\<forall>b e. e > MB_MAX_SLAVE_ID \<or> b > e \<longrightarrow> set_range b e s = s) \<and>
      (fst (getNext s) = SLAVE_EOF \<or>
         (fst (getNext s) \<le> MB_MAX_SLAVE_ID \<and> isSet s (fst (getNext s)))) \<and>
      (\<forall>r. peek s = Some r \<longrightarrow> r = SLAVE_EOF \<or> (r \<le> MB_MAX_SLAVE_ID \<and> isSet s r)))"
proof -
  define s where "s = applyOps ops Slaves_new"
  have inv: "maskInv s"
    unfolding s_def by (rule maskInv_applyOps [OF maskInv_new])
  have a: "\<forall>i. MB_MAX_SLAVE_ID < i \<longrightarrow> \<not> isSet s i \<and> set_id i s = s"
    by (simp add: isSet_def set_id_def)
  have b: "\<forall>b e. e > MB_MAX_SLAVE_ID \<or> b > e \<longrightarrow> set_range b e s = s"
    by (auto simp: set_range_def)
  have c: "\<forall>r. peek s = Some r \<longrightarrow> r = SLAVE_EOF \<or> (r \<le> MB_MAX_SLAVE_ID \<and> isSet s r)"
    using peek_result [of s] by blast
  show ?thesis
    unfolding Let_def s_def [symmetric]
    using inv a b c getNext_result [of s] by (simp add: maskInv_def)
qed

theorem C9_no_reserved_ids_witness:
  "\<not> isSet (applyOps [OpSet 250, OpSetRange 240 255, OpSetRange 9 7, OpSet 3, OpSetRepeatDelay 0] Slaves_new) 250
   \<and> fst (getNext (applyOps [OpSet 250, OpSetRange 240 255, OpSetRange 9 7, OpSet 3, OpSetRepeatDelay 0] Slaves_new)) = 3
   \<and> peek (applyOps [OpSet 250, OpSetRange 240 255, OpSetRange 9 7, OpSet 3, OpSetRepeatDelay 0] Slaves_new) = Some 3
   \<and> mask_bits (applyOps [OpSet 250, OpSetRange 240 255, OpSetRange 9 7, OpSet 3, OpSetRepeatDelay 0] Slaves_new) ! 31 = 0"
proof -
  have e: "fst (getNext (applyOps [OpSet 250, OpSetRange 240 255, OpSetRange 9 7, OpSet 3, OpSetRepeatDelay 0] Slaves_new)) = 3
     \<and> peek (applyOps [OpSet 250, OpSetRange 240 255, OpSetRange 9 7, OpSet 3, OpSetRepeatDelay 0] Slaves_new) = Some 3"
    by code_simp
  have m: "MB_MAX_SLAVE_ID < 250" by (simp add: MB_MAX_SLAVE_ID_def)
  show ?thesis
    using C9_no_reserved_ids [of "[OpSet 250, OpSetRange 240 255, OpSetRange 9 7, OpSet 3, OpSetRepeatDelay 0]"] e m
    unfolding Let_def by blast
qed

section \<open>Properties of the register packing\<close>

subsection \<open>The packing loops\<close>

lemma memcpy_at_nth:
  assumes "off + length bs \<le> length d"
  shows "length (memcpy_at d off bs) = length d"
    and "m < length d \<Longrightarrow> memcpy_at d off bs ! m =
           (if m < off then d ! m else if m < off + length bs then bs ! (m - off) else d ! m)"
  using assms by (auto simp: memcpy_at_def nth_append min_def)

lemma lowByte_reg: "lowByte (push_bit 8 (ucast (hi :: uint8)) OR ucast (lo :: uint8)) = lo"
proof -
  have m: "(0xFF :: uint16) = mask 8" by (simp add: mask_eq_exp_minus_1)
  show ?thesis
    unfolding lowByte_def m
    by (rule bit_word_eqI) (auto simp: bit_simps)
qed

lemma highByte_reg: "highByte (push_bit 8 (ucast (hi :: uint8)) OR ucast (lo :: uint8)) = hi"
  unfolding highByte_def
  by (rule bit_word_eqI) (auto simp: bit_simps dest: bit_imp_le_length)

lemma idx_lt: "i < n \<Longrightarrow> k < p \<Longrightarrow> i * p + k < n * (p::nat)"
proof -
  assume a: "i < n" "k < p"
  then have "Suc i * p \<le> n * p" by (intro mult_le_mono1) simp
  with a show ?thesis by simp
qed

lemma evensBelow_Suc: "evensBelow (2 * Suc n) = evensBelow (2 * n) @ [2 * n]"
  by (simp add: evensBelow_def)

lemma evensBelow_0: "evensBelow 0 = []"
  by (simp add: evensBelow_def)

lemma packRegs_nth:
  assumes "i * p + 2 * n \<le> length d"
  shows "length (fold (packRegLE src s p i) (evensBelow (2 * n)) d) = length d \<and>
         (\<forall>m. fold (packRegLE src s p i) (evensBelow (2 * n)) d ! m =
              (if i * p \<le> m \<and> m < i * p + 2 * n then packedLE src s i (m - i * p) else d ! m))"
  using assms
proof (induction n)
  case 0
  then show ?case by (auto simp: evensBelow_0)
next
  case (Suc n)
  let ?d = "fold (packRegLE src s p i) (evensBelow (2 * n)) d"
  have ih: "length ?d = length d"
    "\<And>m. ?d ! m = (if i * p \<le> m \<and> m < i * p + 2 * n then packedLE src s i (m - i * p) else d ! m)"
    using Suc by auto
  have step: "fold (packRegLE src s p i) (evensBelow (2 * Suc n)) d = packRegLE src s p i (2 * n) ?d"
    by (simp only: evensBelow_Suc fold_append fold_simps comp_def)
  have len: "i * p + 2 * n + 1 < length ?d" using Suc.prems ih(1) by simp
  show ?case
    unfolding step
    using len ih
    by (auto simp: packRegLE_def Let_def nth_list_update packedLE_def)
qed


lemma paddedSizeOf_props:
  assumes "s \<le> 254"
  shows "even (paddedSizeOf s)" "s \<le> paddedSizeOf s" "paddedSizeOf s \<le> s + 1"
        "paddedSizeOf s = 2 * ((s + 1) div 2)"
proof -
  have m: "(s + 1) mod 256 = s + 1" using assms by simp
  show "even (paddedSizeOf s)" unfolding paddedSizeOf_def m by presburger
  show "s \<le> paddedSizeOf s" unfolding paddedSizeOf_def m by simp
  show "paddedSizeOf s \<le> s + 1" unfolding paddedSizeOf_def m by simp
  show "paddedSizeOf s = 2 * ((s + 1) div 2)" unfolding paddedSizeOf_def m by presburger
qed

lemma packElems_nth:
  assumes "even p" "n * p \<le> length d"
  shows "length (fold (packElemLE src s p) [0 ..< n] d) = length d \<and>
         (\<forall>i k. i < n \<and> k < p \<longrightarrow> fold (packElemLE src s p) [0 ..< n] d ! (i * p + k) = packedLE src s i k) \<and>
         (\<forall>m. n * p \<le> m \<longrightarrow> fold (packElemLE src s p) [0 ..< n] d ! m = d ! m)"
  using assms(2)
proof (induction n)
  case 0
  then show ?case by simp
next
  case (Suc n)
  let ?d = "fold (packElemLE src s p) [0 ..< n] d"
  obtain h where h: "p = 2 * h" using assms(1) by (auto elim: evenE)
  have ih: "length ?d = length d"
    "\<And>i k. i < n \<Longrightarrow> k < p \<Longrightarrow> ?d ! (i * p + k) = packedLE src s i k"
    "\<And>m. n * p \<le> m \<Longrightarrow> ?d ! m = d ! m"
    using Suc by auto
  have fit: "n * p + 2 * h \<le> length ?d" using Suc.prems ih(1) h by simp
  have step: "fold (packElemLE src s p) [0 ..< Suc n] d = fold (packRegLE src s p n) (evensBelow (2 * h)) ?d"
    by (simp add: packElemLE_def h)
  note r = packRegs_nth [OF fit, of src s]
  have r1: "length (fold (packRegLE src s p n) (evensBelow (2 * h)) ?d) = length d"
    using r ih(1) by simp
  have r2: "fold (packRegLE src s p n) (evensBelow (2 * h)) ?d ! m =
              (if n * p \<le> m \<and> m < n * p + p then packedLE src s n (m - n * p) else ?d ! m)" for m
    using r h by simp
  show ?case
  proof (intro conjI allI impI)
    show "length (fold (packElemLE src s p) [0 ..< Suc n] d) = length d"
      unfolding step by (rule r1)
  next
    fix i k assume ik: "i < Suc n \<and> k < p"
    show "fold (packElemLE src s p) [0 ..< Suc n] d ! (i * p + k) = packedLE src s i k"
    proof (cases "i = n")
      case True
      then show ?thesis unfolding step r2 using ik by simp
    next
      case False
      then have "i < n" using ik by simp
      then have "i * p + k < n * p" using ik by (intro idx_lt) auto
      then show ?thesis unfolding step r2 using ih(2) [OF \<open>i < n\<close>] ik by simp
    qed
  next
    fix m assume "Suc n * p \<le> m"
    then show "fold (packElemLE src s p) [0 ..< Suc n] d ! m = d ! m"
      unfolding step r2 using ih(3) [of m] by simp
  qed
qed

lemma packElemsBE_nth:
  assumes "s \<le> p" "p \<le> s + 1" "n \<le> c" "length src = c * s" "n * p \<le> length d"
  shows "length (fold (packElemBE src s p) [0 ..< n] d) = length d \<and>
         (\<forall>i k. i < n \<and> k < p \<longrightarrow> fold (packElemBE src s p) [0 ..< n] d ! (i * p + k) = packedBE src s i k) \<and>
         (\<forall>m. n * p \<le> m \<and> m < length d \<longrightarrow> fold (packElemBE src s p) [0 ..< n] d ! m = d ! m)"
  using assms(3,5)
proof (induction n)
  case 0
  then show ?case by simp
next
  case (Suc n)
  define b where "b = fold (packElemBE src s p) [0 ..< n] d"
  define e where "e = take s (drop (n * s) src)"
  have ih: "length b = length d"
    "\<And>i k. i < n \<Longrightarrow> k < p \<Longrightarrow> b ! (i * p + k) = packedBE src s i k"
    "\<And>m. n * p \<le> m \<Longrightarrow> m < length d \<Longrightarrow> b ! m = d ! m"
    using Suc by (auto simp: b_def)
  have "Suc n * s \<le> c * s" using Suc.prems(1) by (intro mult_le_mono1)
  then have le: "length e = s" using assms(4) by (simp add: e_def)
  have ek: "e ! k = src ! (n * s + k)" if "k < s" for k
    using that le by (simp add: e_def)
  have fit: "n * p + length e \<le> length b" using Suc.prems(2) ih(1) le assms(1) by simp
  note mc = memcpy_at_nth [OF fit]
  define d1 where "d1 = memcpy_at b (n * p) e"
  have step: "fold (packElemBE src s p) [0 ..< Suc n] d = (if p > s then d1[n * p + p - 1 := 0] else d1)"
    by (simp add: packElemBE_def Let_def b_def e_def d1_def)
  have l1: "length d1 = length d" using mc(1) ih(1) by (simp add: d1_def)
  have d1m: "d1 ! m = (if m < n * p then b ! m else if m < n * p + s then e ! (m - n * p) else b ! m)"
    if "m < length d" for m
    using mc(2) [of m] that ih(1) le by (simp add: d1_def)
  show ?case
  proof (intro conjI allI impI)
    show "length (fold (packElemBE src s p) [0 ..< Suc n] d) = length d"
      unfolding step using l1 by simp
  next
    fix i k assume ik: "i < Suc n \<and> k < p"
    have "i * p + k < Suc n * p" using ik by (intro idx_lt) auto
    then have inb: "i * p + k < length d" using Suc.prems(2) by simp
    show "fold (packElemBE src s p) [0 ..< Suc n] d ! (i * p + k) = packedBE src s i k"
    proof (cases "i = n")
      case True
      show ?thesis
        unfolding step using True ik inb l1 d1m [OF inb] ek assms(1,2)
        by (auto simp: nth_list_update packedBE_def)
    next
      case False
      then have "i < n" using ik by simp
      then have l: "i * p + k < n * p" using ik by (intro idx_lt) auto
      show ?thesis
        unfolding step using l ik inb l1 d1m [OF inb] ih(2) [OF \<open>i < n\<close>]
        by (auto simp: nth_list_update)
    qed
  next
    fix m assume m: "Suc n * p \<le> m \<and> m < length d"
    then show "fold (packElemBE src s p) [0 ..< Suc n] d ! m = d ! m"
      unfolding step using l1 d1m [of m] ih(3) [of m] assms(1,2)
      by (auto simp: nth_list_update)
  qed
qed

lemma drop_eqI:
  assumes "length a = length b" "\<And>m. n \<le> m \<Longrightarrow> m < length b \<Longrightarrow> a ! m = b ! m"
  shows "drop n a = drop n b"
  using assms by (intro nth_equalityI) auto

lemma pack_ok:
  assumes s: "1 \<le> unat elemSz" "unat elemSz \<le> 254"
    and x: "length x = unat elemCount * unat elemSz"
    and cap: "unat elemCount * paddedSizeOf (unat elemSz) \<le> unat destLen" "unat destLen \<le> length dest"
  shows "\<exists>packed. convertToBigEndianRegisters isBE x elemCount elemSz dest destLen = (True, packed) \<and>
           length packed = length dest \<and>
           drop (unat elemCount * paddedSizeOf (unat elemSz)) packed =
           drop (unat elemCount * paddedSizeOf (unat elemSz)) dest \<and>
           (\<forall>i k. i < unat elemCount \<and> k < paddedSizeOf (unat elemSz) \<longrightarrow>
              packed ! (i * paddedSizeOf (unat elemSz) + k) =
              (if isBE then packedBE x (unat elemSz) i k else packedLE x (unat elemSz) i k))"
proof -
  define c where "c = unat elemCount"
  define sz where "sz = unat elemSz"
  define p where "p = paddedSizeOf sz"
  note pp = paddedSizeOf_props [OF s(2), folded sz_def p_def]
  have nz: "elemSz \<noteq> 0" using s(1) by auto
  have cp: "c * p \<le> length dest" using cap by (simp add: c_def p_def sz_def)
  have "unat destLen < 65536" using unsigned_less [of destLen, where 'a = nat] by simp
  then have "c * p < 65536" using cap(1) by (simp add: c_def p_def sz_def)
  then have tot: "(c * p) mod 65536 = c * p" by simp
  have conv: "convertToBigEndianRegisters isBE x elemCount elemSz dest destLen =
          (True, if isBE then fold (packElemBE x sz p) [0 ..< c] dest
                 else fold (packElemLE x sz p) [0 ..< c] dest)"
    using nz cap(1) tot
    by (simp add: convertToBigEndianRegisters_def Let_def c_def [symmetric] sz_def [symmetric] p_def [symmetric])
  note be = packElemsBE_nth [OF pp(2) pp(3) order_refl x [folded c_def sz_def] cp]
  note le = packElems_nth [OF pp(1) cp, of x sz]
  show ?thesis
    unfolding conv c_def [symmetric] sz_def [symmetric] p_def [symmetric]
    using be le by (cases isBE) (auto intro!: drop_eqI)
qed

subsection \<open>The unpacking loops\<close>

lemma unpackReg_eq:
  "unpackReg isBigEndian b s p i j t =
     (let t1 = (if j < s then t[j := b ! (i * p + j + 1)] else t)
      in if j + 1 < s then t1[j + 1 := b ! (i * p + j)] else t1)"
  by (simp add: unpackReg_def Let_def lowByte_reg highByte_reg)

lemma unpackRegs_nth:
  assumes "s \<le> length t"
  shows "length (fold (unpackReg isBigEndian b s p i) (evensBelow (2 * n)) t) = length t \<and>
         (\<forall>k. fold (unpackReg isBigEndian b s p i) (evensBelow (2 * n)) t ! k =
              (if k < 2 * n \<and> k < s then unpacked b p i k else t ! k))"
proof (induction n)
  case 0
  then show ?case by (simp add: evensBelow_0)
next
  case (Suc n)
  let ?t = "fold (unpackReg isBigEndian b s p i) (evensBelow (2 * n)) t"
  have ih: "length ?t = length t"
    "\<And>k. ?t ! k = (if k < 2 * n \<and> k < s then unpacked b p i k else t ! k)"
    using Suc by auto
  have step: "fold (unpackReg isBigEndian b s p i) (evensBelow (2 * Suc n)) t =
                unpackReg isBigEndian b s p i (2 * n) ?t"
    by (simp only: evensBelow_Suc fold_append fold_simps comp_def)
  have e: "unpackReg isBigEndian b s p i (2 * n) ?t =
      (let t1 = (if 2 * n < s then ?t[2 * n := b ! (i * p + 2 * n + 1)] else ?t)
       in if 2 * n + 1 < s then t1[2 * n + 1 := b ! (i * p + 2 * n)] else t1)"
    by (rule unpackReg_eq)
  show ?case
    unfolding step e
    using ih assms
    by (auto simp: Let_def nth_list_update unpacked_def)
qed

lemma unpackElems_nth:
  assumes "even p" "s \<le> p" "s \<le> length t0" "n * p \<le> length b0"
  shows "length (fst (fold (unpackElem isBigEndian s p) [0 ..< n] (b0, t0))) = length b0 \<and>
         length (snd (fold (unpackElem isBigEndian s p) [0 ..< n] (b0, t0))) = length t0 \<and>
         (\<forall>i k. i < n \<and> k < s \<longrightarrow>
            fst (fold (unpackElem isBigEndian s p) [0 ..< n] (b0, t0)) ! (i * s + k) = unpacked b0 p i k) \<and>
         (\<forall>m. n * s \<le> m \<and> m < length b0 \<longrightarrow>
            fst (fold (unpackElem isBigEndian s p) [0 ..< n] (b0, t0)) ! m = b0 ! m)"
  using assms(4)
proof (induction n)
  case 0
  then show ?case by simp
next
  case (Suc n)
  let ?r = "fold (unpackElem isBigEndian s p) [0 ..< n] (b0, t0)"
  obtain h where h: "p = 2 * h" using assms(1) by (auto elim: evenE)
  have np: "n * p \<le> length b0" using Suc.prems by simp
  have ih: "length (fst ?r) = length b0" "length (snd ?r) = length t0"
    "\<And>i k. i < n \<Longrightarrow> k < s \<Longrightarrow> fst ?r ! (i * s + k) = unpacked b0 p i k"
    "\<And>m. n * s \<le> m \<Longrightarrow> m < length b0 \<Longrightarrow> fst ?r ! m = b0 ! m"
    using Suc.IH [OF np] by auto
  let ?t = "fold (unpackReg isBigEndian (fst ?r) s p n) (evensBelow (2 * h)) (snd ?r)"
  have st: "s \<le> length (snd ?r)" using ih(2) assms(3) by simp
  note u = unpackRegs_nth [OF st, of isBigEndian "fst ?r" p n h]
  have tl: "length ?t = length t0" using u ih(2) by simp
  have nsp: "n * s \<le> n * p" using assms(2) by simp
  have tk: "?t ! k = unpacked b0 p n k" if "k < s" for k
  proof -
    have "?t ! k = unpacked (fst ?r) p n k" using u that assms(2) h by simp
    also have "\<dots> = unpacked b0 p n k"
    proof (cases "even k")
      case True
      have "k < p" using that assms(2) by simp
      then have "k + 1 < p" using True assms(1) by presburger
      then have "n * p + k + 1 < length b0" using Suc.prems by simp
      moreover have "n * s \<le> n * p + k + 1" using nsp by linarith
      ultimately show ?thesis using True ih(4) [of "n * p + k + 1"] by (simp add: unpacked_def)
    next
      case False
      then have k1: "1 \<le> k" by (cases k) auto
      have "n * p + k - 1 < length b0" using Suc.prems that assms(2) by simp
      moreover have "n * s \<le> n * p + k - 1" using nsp k1 by linarith
      ultimately show ?thesis using False ih(4) [of "n * p + k - 1"] by (simp add: unpacked_def)
    qed
    finally show ?thesis .
  qed
  define b where "b = fst ?r"
  define t' where "t' = take s ?t"
  have step: "fold (unpackElem isBigEndian s p) [0 ..< Suc n] (b0, t0) = (memcpy_at b (n * s) t', ?t)"
    by (simp add: unpackElem_def Let_def h b_def t'_def)
  have lt: "length t' = s" using tl assms(3) by (simp add: t'_def)
  have t'k: "t' ! k = unpacked b0 p n k" if "k < s" for k
    using tk [OF that] that by (simp add: t'_def)
  have lb: "length b = length b0" using ih(1) by (simp add: b_def)
  have bi: "b ! (i * s + k) = unpacked b0 p i k" if "i < n" "k < s" for i k
    using ih(3) [OF that] by (simp add: b_def)
  have bm: "b ! m = b0 ! m" if "n * s \<le> m" "m < length b0" for m
    using ih(4) [OF that] by (simp add: b_def)
  have "Suc n * s \<le> Suc n * p" using assms(2) by (intro mult_le_mono2)
  then have fit: "n * s + length t' \<le> length b"
    using Suc.prems lb lt by simp
  note mc = memcpy_at_nth [OF fit]
  show ?case
  proof (intro conjI allI impI)
    show "length (fst (fold (unpackElem isBigEndian s p) [0 ..< Suc n] (b0, t0))) = length b0"
      unfolding step using mc(1) lb by simp
    show "length (snd (fold (unpackElem isBigEndian s p) [0 ..< Suc n] (b0, t0))) = length t0"
      unfolding step using tl by simp
  next
    fix i k assume ik: "i < Suc n \<and> k < s"
    show "fst (fold (unpackElem isBigEndian s p) [0 ..< Suc n] (b0, t0)) ! (i * s + k) = unpacked b0 p i k"
    proof (cases "i = n")
      case True
      have "n * s + k < length b" using fit lt ik by simp
      from mc(2) [OF this] show ?thesis unfolding step using True lt ik t'k by simp
    next
      case False
      then have "i < n" using ik by simp
      then have l: "i * s + k < n * s" using ik by (intro idx_lt) auto
      then have "i * s + k < length b" using fit by simp
      from mc(2) [OF this] show ?thesis unfolding step using l bi [OF \<open>i < n\<close>] ik by simp
    qed
  next
    fix m assume m: "Suc n * s \<le> m \<and> m < length b0"
    then have "m < length b" using lb by simp
    from mc(2) [OF this] show "fst (fold (unpackElem isBigEndian s p) [0 ..< Suc n] (b0, t0)) ! m = b0 ! m"
      unfolding step using m lt bm [of m] by simp
  qed
qed

lemma unpack_ok:
  assumes s: "1 \<le> unat elemSz" "unat elemSz \<le> 32"
    and fit: "unat elemCount * paddedSizeOf (unat elemSz) \<le> unat (PDUSize pdu)"
    and len: "unat elemCount * paddedSizeOf (unat elemSz) \<le> length b0"
  shows "\<exists>buf. convertFromBigEndianRegistersInPlace isBE b0 elemCount elemSz pdu =
             (True, buf, pdu\<lparr> dataLen := of_nat (unat elemCount * unat elemSz) \<rparr>) \<and>
           length buf = length b0 \<and>
           (\<forall>i k. i < unat elemCount \<and> k < unat elemSz \<longrightarrow>
              buf ! (i * unat elemSz + k) = unpacked b0 (paddedSizeOf (unat elemSz)) i k)"
proof -
  define c where "c = unat elemCount"
  define sz where "sz = unat elemSz"
  define p where "p = paddedSizeOf sz"
  have s254: "unat elemSz \<le> 254" using s(2) by simp
  note pp = paddedSizeOf_props [OF s254, folded sz_def p_def]
  have nz: "elemSz \<noteq> 0" using s(1) by auto
  have "unat (PDUSize pdu) < 256" using unsigned_less [of "PDUSize pdu", where 'a = nat] by simp
  then have cp: "c * p < 65536" "c * p \<le> unat (PDUSize pdu)"
    using fit by (simp_all add: c_def p_def sz_def)
  have "c * sz \<le> c * p" using pp(2) by (intro mult_le_mono2)
  then have cs: "c * sz < 65536" "c * sz \<le> unat (PDUSize pdu)" using cp by linarith+
  have conv: "convertFromBigEndianRegistersInPlace isBE b0 elemCount elemSz pdu =
          (True, fst (fold (unpackElem isBE sz p) [0 ..< c] (b0, replicate 32 0)),
           pdu\<lparr> dataLen := of_nat (c * sz) \<rparr>)"
    using nz cp cs s(2)
    by (simp add: convertFromBigEndianRegistersInPlace_def Let_def
          c_def [symmetric] sz_def [symmetric] p_def [symmetric] not_less)
  have t: "sz \<le> length (replicate 32 (0 :: uint8))" using s(2) by (simp add: sz_def)
  note u = unpackElems_nth [OF pp(1) pp(2) t len [folded c_def sz_def p_def], of isBE]
  show ?thesis
    unfolding conv c_def [symmetric] sz_def [symmetric] p_def [symmetric]
    using u by auto
qed

lemma unpacked_packedLE:
  assumes "even p" "s \<le> p" "i < c" "k < s"
    and "\<And>i k. i < c \<Longrightarrow> k < p \<Longrightarrow> packed ! (i * p + k) = packedLE x s i k"
  shows "unpacked packed p i k = x ! (i * s + k)"
proof (cases "even k")
  case True
  have "k < p" using assms(2,4) by simp
  then have "k + 1 < p" using True assms(1) by presburger
  from assms(5) [OF assms(3) this] show ?thesis
    using True assms(4) by (simp add: unpacked_def packedLE_def add.assoc)
next
  case False
  then have k1: "1 \<le> k" by (cases k) auto
  have "k - 1 < p" using assms(2,4) by simp
  from assms(5) [OF assms(3) this] show ?thesis
    using False assms(4) k1 by (simp add: unpacked_def packedLE_def)
qed

lemma roundtrip_LE:
  assumes s: "1 \<le> unat elemSz" "unat elemSz \<le> 32"
    and x: "length x = unat elemCount * unat elemSz"
    and cap: "unat elemCount * paddedSizeOf (unat elemSz) \<le> unat destLen" "unat destLen \<le> length dest"
    and fit: "unat elemCount * paddedSizeOf (unat elemSz) \<le> unat (PDUSize pdu)"
  shows "\<exists>packed buf.
           convertToBigEndianRegisters False x elemCount elemSz dest destLen = (True, packed) \<and>
           convertFromBigEndianRegistersInPlace False packed elemCount elemSz pdu =
             (True, buf, pdu\<lparr> dataLen := of_nat (unat elemCount * unat elemSz) \<rparr>) \<and>
           take (unat elemCount * unat elemSz) buf = x"
proof -
  define c where "c = unat elemCount"
  define sz where "sz = unat elemSz"
  define p where "p = paddedSizeOf sz"
  have s254: "unat elemSz \<le> 254" using s(2) by simp
  note pp = paddedSizeOf_props [OF s254, folded sz_def p_def]
  from pack_ok [OF s(1) s254 x cap, of False] obtain packed where
    pk: "convertToBigEndianRegisters False x elemCount elemSz dest destLen = (True, packed)"
        "length packed = length dest"
        "\<And>i k. i < c \<Longrightarrow> k < p \<Longrightarrow> packed ! (i * p + k) = packedLE x sz i k"
    by (auto simp: c_def sz_def p_def)
  have len: "unat elemCount * paddedSizeOf (unat elemSz) \<le> length packed"
    using cap pk(2) by simp
  from unpack_ok [OF s fit len, of False] obtain buf where
    bf: "convertFromBigEndianRegistersInPlace False packed elemCount elemSz pdu =
           (True, buf, pdu\<lparr> dataLen := of_nat (unat elemCount * unat elemSz) \<rparr>)"
        "length buf = length packed"
        "\<And>i k. i < c \<Longrightarrow> k < sz \<Longrightarrow> buf ! (i * sz + k) = unpacked packed p i k"
    by (auto simp: c_def sz_def p_def)
  have "c * sz \<le> c * p" using pp(2) by (intro mult_le_mono2)
  moreover have "c * p \<le> length buf" using len bf(2) by (simp add: c_def sz_def p_def)
  ultimately have cl: "c * sz \<le> length buf" by linarith
  have szpos: "0 < sz" using s(1) by (simp add: sz_def)
  have "take (c * sz) buf = x"
  proof (rule nth_equalityI)
    show "length (take (c * sz) buf) = length x" using cl x by (simp add: c_def sz_def)
  next
    fix m assume "m < length (take (c * sz) buf)"
    then have m: "m < c * sz" by simp
    define i where "i = m div sz"
    define k where "k = m mod sz"
    have mk: "m = i * sz + k" by (simp add: i_def k_def)
    have k: "k < sz" using szpos by (simp add: k_def)
    have i: "i < c" using m szpos by (simp add: i_def less_mult_imp_div_less)
    have "buf ! m = unpacked packed p i k" unfolding mk by (rule bf(3) [OF i k])
    also have "\<dots> = x ! (i * sz + k)"
      by (rule unpacked_packedLE [OF pp(1) pp(2) i k pk(3)])
    finally show "take (c * sz) buf ! m = x ! m" using m mk by simp
  qed
  then show ?thesis using pk(1) bf(1) by (auto simp: c_def sz_def)
qed

subsection \<open>Claims C1 and C2\<close>

lemma evensBelow_4: "evensBelow 4 = [0, 2]"
  by (simp add: evensBelow_def upt_rec)

lemma evensBelow_2: "evensBelow 2 = [0]"
  by (simp add: evensBelow_def)

text \<open>
  Claim C1, as amended.  One 4-byte element holding \<open>0x11223344\<close>: on a little-endian
  host the destination receives the bytes \<open>33 44 11 22\<close>, the registers \<open>0x3344, 0x1122\<close>;
  on a big-endian host it receives \<open>11 22 33 44\<close>, the registers \<open>0x1122, 0x3344\<close>.
  The packed bytes depend on the host.
\<close>

theorem C1_pack_32bit:
  "convertToBigEndianRegisters False (hostBytes32 False 0x11223344) 1 4 [a, b, c, d] 4
     = (True, [0x33, 0x44, 0x11, 0x22])
   \<and> wireRegisters [0x33, 0x44, 0x11, 0x22] = [0x3344, 0x1122]
   \<and> convertToBigEndianRegisters True (hostBytes32 True 0x11223344) 1 4 [a, b, c, d] 4
     = (True, [0x11, 0x22, 0x33, 0x44])
   \<and> wireRegisters [0x11, 0x22, 0x33, 0x44] = [0x1122, 0x3344]"
  by (simp add: convertToBigEndianRegisters_def paddedSizeOf_def packElemLE_def packElemBE_def
        evensBelow_4 packRegLE_def memcpy_at_def hostBytes32_def Let_def)

text \<open>
  Claim C1 as stated says the destination holds \<open>11 22 33 44\<close> on either host; on a
  little-endian host it does not.
\<close>

theorem C1_wire_bytes_counterexample:
  "snd (convertToBigEndianRegisters False (hostBytes32 False 0x11223344) 1 4 [0, 0, 0, 0] 4)
     \<noteq> [0x11, 0x22, 0x33, 0x44]"
  by (simp add: convertToBigEndianRegisters_def paddedSizeOf_def packElemLE_def
        evensBelow_4 packRegLE_def hostBytes32_def Let_def)

lemma unpack_too_big:
  "unat (PDUSize pdu) < unat elemCount * paddedSizeOf (unat elemSz) \<Longrightarrow>
   unat elemCount * paddedSizeOf (unat elemSz) < 65536 \<Longrightarrow>
   convertFromBigEndianRegistersInPlace isBE buffer elemCount elemSz pdu = (False, buffer, pdu)"
  by (simp add: convertFromBigEndianRegistersInPlace_def Let_def)

lemma packed_total_small:
  assumes "unat (elemSz :: uint8) \<le> 32"
  shows "unat (elemCount :: uint8) * paddedSizeOf (unat elemSz) < 65536"
proof -
  have s254: "unat elemSz \<le> 254" using assms by simp
  have "paddedSizeOf (unat elemSz) \<le> unat elemSz + 1"
    using paddedSizeOf_props(4) [OF s254] by simp
  then have p: "paddedSizeOf (unat elemSz) \<le> 33" using assms by simp
  have c: "unat elemCount < 256" using unsigned_less [of elemCount, where 'a = nat] by simp
  have "unat elemCount * paddedSizeOf (unat elemSz) \<le> 255 * 33"
    by (rule mult_le_mono) (use c p in simp_all)
  then show ?thesis by simp
qed


text \<open>
  Claim C2, as amended.  For an element size from 1 to 32, a count of at least 1, a
  source of count times size bytes and a destination of capacity at least count times
  the padded size: the padded size is the size rounded up to even; packing succeeds on
  either host, keeps the destination's length and leaves every byte past the packed ones
  untouched.  When the packed length fits the PDU (it is at most \<open>_PDUSize\<close>), on a
  little-endian host the in-place unpacking succeeds, sets \<open>_dataLen\<close> to count times
  size and restores the source bytes; when it does not fit, the unpacking returns
  \<open>false\<close> and leaves the buffer and the PDU as they are.
\<close>

theorem C2_roundtrip:
  assumes "1 \<le> unat elemSz" and "unat elemSz \<le> 32"
    and "1 \<le> unat elemCount"
    and "length x = unat elemCount * unat elemSz"
    and "unat elemCount * paddedSizeOf (unat elemSz) \<le> unat destLen"
    and "unat destLen \<le> length dest"
  shows "paddedSizeOf (unat elemSz) = 2 * ((unat elemSz + 1) div 2)
     \<and> (\<exists>packedB. convertToBigEndianRegisters True x elemCount elemSz dest destLen = (True, packedB)
            \<and> length packedB = length dest
            \<and> drop (unat elemCount * paddedSizeOf (unat elemSz)) packedB =
              drop (unat elemCount * paddedSizeOf (unat elemSz)) dest)
     \<and> (\<exists>packed.
            convertToBigEndianRegisters False x elemCount elemSz dest destLen = (True, packed)
            \<and> length packed = length dest
            \<and> drop (unat elemCount * paddedSizeOf (unat elemSz)) packed =
              drop (unat elemCount * paddedSizeOf (unat elemSz)) dest
            \<and> (unat elemCount * paddedSizeOf (unat elemSz) \<le> unat (PDUSize pdu) \<longrightarrow>
                 (\<exists>buf. convertFromBigEndianRegistersInPlace False packed elemCount elemSz pdu =
                          (True, buf, pdu\<lparr> dataLen := of_nat (unat elemCount * unat elemSz) \<rparr>)
                      \<and> take (unat elemCount * unat elemSz) buf = x))
            \<and> (unat (PDUSize pdu) < unat elemCount * paddedSizeOf (unat elemSz) \<longrightarrow>
                 convertFromBigEndianRegistersInPlace False packed elemCount elemSz pdu =
                   (False, packed, pdu)))"
proof -
  have s254: "unat elemSz \<le> 254" using assms(2) by simp
  have a: "paddedSizeOf (unat elemSz) = 2 * ((unat elemSz + 1) div 2)"
    by (rule paddedSizeOf_props(4) [OF s254])
  from pack_ok [OF assms(1) s254 assms(4,5,6), of True]
  have b: "\<exists>packedB. convertToBigEndianRegisters True x elemCount elemSz dest destLen = (True, packedB)
            \<and> length packedB = length dest
            \<and> drop (unat elemCount * paddedSizeOf (unat elemSz)) packedB =
              drop (unat elemCount * paddedSizeOf (unat elemSz)) dest"
    by blast
  from pack_ok [OF assms(1) s254 assms(4,5,6), of False] obtain packed where
    p: "convertToBigEndianRegisters False x elemCount elemSz dest destLen = (True, packed)"
       "length packed = length dest"
       "drop (unat elemCount * paddedSizeOf (unat elemSz)) packed =
        drop (unat elemCount * paddedSizeOf (unat elemSz)) dest"
    by blast
  have r: "\<exists>buf. convertFromBigEndianRegistersInPlace False packed elemCount elemSz pdu =
                   (True, buf, pdu\<lparr> dataLen := of_nat (unat elemCount * unat elemSz) \<rparr>)
                \<and> take (unat elemCount * unat elemSz) buf = x"
    if fit: "unat elemCount * paddedSizeOf (unat elemSz) \<le> unat (PDUSize pdu)"
    using roundtrip_LE [OF assms(1,2,4,5,6) fit] p(1) by auto
  have t: "convertFromBigEndianRegistersInPlace False packed elemCount elemSz pdu = (False, packed, pdu)"
    if big: "unat (PDUSize pdu) < unat elemCount * paddedSizeOf (unat elemSz)"
    by (rule unpack_too_big [OF big packed_total_small [OF assms(2)]])
  show ?thesis using a b p r t by blast
qed

theorem C2_roundtrip_witness:
  "(\<exists>packed buf.
      convertToBigEndianRegisters False [1, 2, 3, 4, 5, 6] 2 3 (replicate 8 0) 8 = (True, packed)
      \<and> length packed = 8
      \<and> convertFromBigEndianRegistersInPlace False packed 2 3 ((PDU_new 1)\<lparr> PDUSize := 253 \<rparr>) =
          (True, buf, (PDU_new 1)\<lparr> PDUSize := 253, dataLen := 6 \<rparr>)
      \<and> take 6 buf = [1, 2, 3, 4, 5, 6])
   \<and> (\<exists>packed.
      convertToBigEndianRegisters False [1, 2, 3, 4, 5, 6] 2 3 (replicate 8 0) 8 = (True, packed)
      \<and> convertFromBigEndianRegistersInPlace False packed 2 3 ((PDU_new 1)\<lparr> PDUSize := 7 \<rparr>) =
          (False, packed, (PDU_new 1)\<lparr> PDUSize := 7 \<rparr>))"
proof -
  have p: "paddedSizeOf (unat (3 :: uint8)) = 4" "paddedSizeOf 3 = 4" by (simp_all add: paddedSizeOf_def)
  have h: "1 \<le> unat (3 :: uint8)" "unat (3 :: uint8) \<le> 32" "1 \<le> unat (2 :: uint8)"
    "length [1, 2, 3, 4, 5, 6 :: uint8] = unat (2 :: uint8) * unat (3 :: uint8)"
    "unat (2 :: uint8) * paddedSizeOf (unat (3 :: uint8)) \<le> unat (8 :: uint16)"
    "unat (8 :: uint16) \<le> length (replicate 8 (0 :: uint8))"
    by (simp_all add: p)
  have A: "\<exists>packed buf.
      convertToBigEndianRegisters False [1, 2, 3, 4, 5, 6] 2 3 (replicate 8 0) 8 = (True, packed)
      \<and> length packed = 8
      \<and> convertFromBigEndianRegistersInPlace False packed 2 3 ((PDU_new 1)\<lparr> PDUSize := 253 \<rparr>) =
          (True, buf, (PDU_new 1)\<lparr> PDUSize := 253, dataLen := 6 \<rparr>)
      \<and> take 6 buf = [1, 2, 3, 4, 5, 6]"
    using C2_roundtrip [OF h, of "(PDU_new 1)\<lparr> PDUSize := 253 \<rparr>"] by (auto simp: p)
  have B: "\<exists>packed.
      convertToBigEndianRegisters False [1, 2, 3, 4, 5, 6] 2 3 (replicate 8 0) 8 = (True, packed)
      \<and> convertFromBigEndianRegistersInPlace False packed 2 3 ((PDU_new 1)\<lparr> PDUSize := 7 \<rparr>) =
          (False, packed, (PDU_new 1)\<lparr> PDUSize := 7 \<rparr>)"
    using C2_roundtrip [OF h, of "(PDU_new 1)\<lparr> PDUSize := 7 \<rparr>"] by (auto simp: p)
  show ?thesis using A B by blast
qed

lemma replicate_32_head: "replicate 32 (a :: uint8) = a # a # replicate 30 a"
proof -
  have "(32 :: nat) = Suc (Suc 30)" by simp
  then show ?thesis by (simp only: replicate_Suc)
qed

text \<open>
  Claim C2 as stated fails twice.  With 128 elements of 2 bytes the packed length, 256,
  exceeds every \<open>_PDUSize\<close> (a \<open>uint8_t\<close>): the unpacking refuses and the buffer keeps
  the packed bytes.  On a big-endian host packing copies verbatim but unpacking still
  swaps each pair: \<open>12 34\<close> comes back as \<open>34 12\<close>.
\<close>

theorem C2_roundtrip_counterexample:
  "(let x = map of_nat [0 ..< 256];
        r1 = convertToBigEndianRegisters False x 128 2 (replicate 256 0) 256;
        r2 = convertFromBigEndianRegistersInPlace False (snd r1) 128 2 ((PDU_new 1)\<lparr> PDUSize := 255 \<rparr>)
    in fst r1 \<and> \<not> fst r2 \<and> take 256 (fst (snd r2)) \<noteq> x)
   \<and>
   (let x = [0x12, 0x34];
        r1 = convertToBigEndianRegisters True x 1 2 [0, 0] 2;
        r2 = convertFromBigEndianRegistersInPlace True (snd r1) 1 2 ((PDU_new 1)\<lparr> PDUSize := 253 \<rparr>)
    in fst r1 \<and> fst r2 \<and> take 2 (fst (snd r2)) \<noteq> x)"
proof -
  define x :: "uint8 list" where "x = map of_nat [0 ..< 256]"
  have p: "paddedSizeOf (unat (2 :: uint8)) = 2" "paddedSizeOf 2 = 2" by (simp_all add: paddedSizeOf_def)
  have h: "1 \<le> unat (2 :: uint8)" "unat (2 :: uint8) \<le> 254"
    "length x = unat (128 :: uint8) * unat (2 :: uint8)"
    "unat (128 :: uint8) * paddedSizeOf (unat (2 :: uint8)) \<le> unat (256 :: uint16)"
    "unat (256 :: uint16) \<le> length (replicate 256 (0 :: uint8))"
    by (simp_all add: p x_def)
  from pack_ok [OF h, of False] obtain packed where
    pk: "convertToBigEndianRegisters False x 128 2 (replicate 256 0) 256 = (True, packed)"
        "length packed = 256"
        "\<And>i k. i < 128 \<Longrightarrow> k < 2 \<Longrightarrow> packed ! (i * 2 + k) = packedLE x 2 i k"
    by (auto simp: p)
  have "packed ! (0 * 2 + 0) = packedLE x 2 0 0" by (rule pk(3)) simp_all
  then have p0: "packed ! 0 = 1" by (simp add: packedLE_def x_def)
  have x0: "x ! 0 = 0" by (simp add: x_def)
  have ne: "take 256 packed \<noteq> x"
  proof
    assume "take 256 packed = x"
    then have "take 256 packed ! 0 = x ! 0" by simp
    then show False using p0 x0 by simp
  qed
  have un: "convertFromBigEndianRegistersInPlace False packed 128 2 ((PDU_new 1)\<lparr> PDUSize := 255 \<rparr>)
              = (False, packed, (PDU_new 1)\<lparr> PDUSize := 255 \<rparr>)"
    by (rule unpack_too_big) (simp_all add: p)
  have A: "(let x = map of_nat [0 ..< 256];
        r1 = convertToBigEndianRegisters False x 128 2 (replicate 256 0) 256;
        r2 = convertFromBigEndianRegistersInPlace False (snd r1) 128 2 ((PDU_new 1)\<lparr> PDUSize := 255 \<rparr>)
    in fst r1 \<and> \<not> fst r2 \<and> take 256 (fst (snd r2)) \<noteq> x)"
    unfolding Let_def x_def [symmetric] using pk(1) un ne by simp
  have B: "(let x = [0x12, 0x34];
        r1 = convertToBigEndianRegisters True x 1 2 [0, 0] 2;
        r2 = convertFromBigEndianRegistersInPlace True (snd r1) 1 2 ((PDU_new 1)\<lparr> PDUSize := 253 \<rparr>)
    in fst r1 \<and> fst r2 \<and> take 2 (fst (snd r2)) \<noteq> x)"
    by (simp add: convertToBigEndianRegisters_def convertFromBigEndianRegistersInPlace_def
          paddedSizeOf_def packElemBE_def memcpy_at_def unpackElem_def unpackReg_def
          evensBelow_2 Let_def PDU_new_def replicate_32_head)
  show ?thesis using A B by blast
qed

section \<open>Properties of typed reads\<close>

text \<open>
  Claim C10.  For an element type of \<open>sz > 0\<close> bytes, a \<open>size_t\<close> of at least 16 bits
  that can hold \<open>sz\<close>, and a receive buffer of at least \<open>_PDUSize\<close> bytes:
  \<open>getData\<close> always returns \<open>sz\<close> bytes without leaving the buffer; whenever
  \<open>_dataBegin + ix * sz + sz\<close> (computed without wrap-around) exceeds \<open>_PDUSize\<close> or
  \<open>ix >= _dataLen / sz\<close> it returns the all-zero value; otherwise it returns the \<open>sz\<close>
  bytes at \<open>_dataBegin + ix * sz\<close>, which end within the first \<open>_PDUSize\<close> bytes.
\<close>

theorem C10_getData_total:
  assumes sz: "0 < sz" and w: "16 \<le> w" "sz < 2 ^ w"
    and buf: "unat (PDUSize pdu) \<le> length (RXPDUbuffer pdu)"
  shows "(unat (dataBegin pdu) + unat ix * sz + sz > unat (PDUSize pdu) \<or> unat ix \<ge> unat (dataLen pdu) div sz
            \<longrightarrow> getData w sz ix pdu = Some (replicate sz 0))
       \<and> (\<not> (unat (dataBegin pdu) + unat ix * sz + sz > unat (PDUSize pdu) \<or> unat ix \<ge> unat (dataLen pdu) div sz)
            \<longrightarrow> getData w sz ix pdu = Some (take sz (drop (unat (dataBegin pdu) + unat ix * sz) (RXPDUbuffer pdu)))
                \<and> unat (dataBegin pdu) + unat ix * sz + sz \<le> unat (PDUSize pdu))
       \<and> (\<exists>bs. getData w sz ix pdu = Some bs \<and> length bs = sz)"
proof (cases "unat ix \<ge> unat (dataLen pdu) div sz")
  case True
  then show ?thesis by (simp add: getData_def Let_def)
next
  case False
  then have lt: "unat ix < unat (dataLen pdu) div sz" by simp
  then have "Suc (unat ix) * sz \<le> unat (dataLen pdu)"
    using sz by (metis Suc_leI less_eq_div_iff_mult_less_eq)
  moreover have "unat (dataLen pdu) < 256" using unsigned_less [of "dataLen pdu", where 'a = nat] by simp
  ultimately have b1: "unat ix * sz + sz < 256" by simp
  have b2: "unat (dataBegin pdu) < 256" using unsigned_less [of "dataBegin pdu", where 'a = nat] by simp
  have "(2 :: nat) ^ 16 \<le> 2 ^ w" using w(1) by (intro power_increasing) simp_all
  then have w2: "(65536 :: nat) \<le> 2 ^ w" by simp
  define off where "off = unat (dataBegin pdu) + unat ix * sz"
  have o1: "off mod 65536 = off" using b1 b2 by (simp add: off_def)
  have o2: "(off + sz) mod 2 ^ w = off + sz" using b1 b2 w2 by (simp add: off_def)
  have g: "getData w sz ix pdu =
        (if off + sz > unat (PDUSize pdu) then Some (replicate sz 0)
         else readBytes (RXPDUbuffer pdu) off sz)"
    using False by (simp add: getData_def Let_def off_def [symmetric] o1 o2)
  show ?thesis
  proof (cases "off + sz > unat (PDUSize pdu)")
    case True
    then show ?thesis using g False by (simp add: off_def)
  next
    case F: False
    then have "off + sz \<le> length (RXPDUbuffer pdu)" using buf by simp
    then show ?thesis using g F False by (simp add: off_def readBytes_def)
  qed
qed

theorem C10_getData_total_witness:
  "getData 16 2 0 ((PDU_new 1)\<lparr> PDUSize := 4, RXPDUbuffer := [3, 2, 0x34, 0x12], dataBegin := 2, dataLen := 2 \<rparr>)
     = Some [0x34, 0x12]
   \<and> getData 16 2 1 ((PDU_new 1)\<lparr> PDUSize := 4, RXPDUbuffer := [3, 2, 0x34, 0x12], dataBegin := 2, dataLen := 2 \<rparr>)
     = Some [0, 0]
   \<and> getData 16 2 0xFFFF ((PDU_new 1)\<lparr> PDUSize := 4, RXPDUbuffer := [3, 2, 0x34, 0x12], dataBegin := 2, dataLen := 2 \<rparr>)
     = Some [0, 0]"
proof -
  let ?p = "(PDU_new 1)\<lparr> PDUSize := 4, RXPDUbuffer := [3, 2, 0x34, 0x12], dataBegin := 2, dataLen := 2 \<rparr>"
  have h: "0 < (2 :: nat)" "16 \<le> (16 :: nat)" "(2 :: nat) < 2 ^ 16"
    "unat (PDUSize ?p) \<le> length (RXPDUbuffer ?p)"
    by simp_all
  have r: "replicate 2 (0 :: uint8) = [0, 0]" by (simp add: numeral_2_eq_2)
  show ?thesis
    using C10_getData_total [OF h, of 0] C10_getData_total [OF h, of 1]
          C10_getData_total [OF h, of "0xFFFF"]
    by (simp add: r)
qed

section \<open>Properties of the RTU timing\<close>

text \<open>
  Claim C8, as amended.  For a baud rate of at most 19200 that is at least the number of
  bits per character (\<open>1 + data + parity + stop\<close>), \<open>calcTimeout\<close> sets the byte
  timeout to \<open>1.5 * c\<close> and the frame timeout to \<open>3.5 * c\<close>, each rounded down to a
  whole microsecond, where \<open>c = 1000000 div (baud div bits)\<close> in integer arithmetic.
  For a baud rate above 19200 it sets them to exactly 750 and 1750.
\<close>

theorem C8_calcTimeout:
  "(unat (baud m) \<le> 19200 \<and> unat data + 1 + unat parity + unat stopBit \<le> unat (baud m) \<longrightarrow>
      (\<exists>m'. calcTimeout data parity stopBit m = Some m'
          \<and> unat (byteTimeout m') =
              3 * charTimeOf (unat (baud m)) (unat data + 1 + unat parity + unat stopBit) div 2
          \<and> unat (frameTimeout m') =
              7 * charTimeOf (unat (baud m)) (unat data + 1 + unat parity + unat stopBit) div 2))
   \<and> (unat (baud m) > 19200 \<longrightarrow>
      (\<exists>m'. calcTimeout data parity stopBit m = Some m'
          \<and> byteTimeout m' = 750 \<and> frameTimeout m' = 1750))"
proof (intro conjI impI)
  assume a: "unat (baud m) \<le> 19200 \<and> unat data + 1 + unat parity + unat stopBit \<le> unat (baud m)"
  define bits where "bits = unat data + 1 + unat parity + unat stopBit"
  define c where "c = charTimeOf (unat (baud m)) bits"
  have q: "0 < unat (baud m) div bits"
    using a by (simp add: bits_def div_greater_zero_iff)
  have "c \<le> 1000000" unfolding c_def charTimeOf_def by (rule div_le_dividend)
  then have b: "c * 3 div 2 < 2 ^ 32" "c * 7 div 2 < 2 ^ 32" by simp_all
  have u: "unat (of_nat (c * 3 div 2) :: uint32) = c * 3 div 2"
          "unat (of_nat (c * 7 div 2) :: uint32) = c * 7 div 2"
    using b by (simp_all add: unat_of_nat take_bit_nat_eq_self)
  have le: "unat (baud m) \<le> 19200" using a by simp
  have ct: "calcTimeout data parity stopBit m =
      Some (m\<lparr> lastByteTime := 0, byteTimeout := of_nat (c * 3 div 2),
                frameTimeout := of_nat (c * 7 div 2) \<rparr>)"
    unfolding calcTimeout_def Let_def bits_def [symmetric] c_def [symmetric]
    using le q by simp
  show "\<exists>m'. calcTimeout data parity stopBit m = Some m'
          \<and> unat (byteTimeout m') =
              3 * charTimeOf (unat (baud m)) (unat data + 1 + unat parity + unat stopBit) div 2
          \<and> unat (frameTimeout m') =
              7 * charTimeOf (unat (baud m)) (unat data + 1 + unat parity + unat stopBit) div 2"
    unfolding bits_def [symmetric] c_def [symmetric] ct
    using u by (simp add: mult.commute)
next
  assume "unat (baud m) > 19200"
  then show "\<exists>m'. calcTimeout data parity stopBit m = Some m'
          \<and> byteTimeout m' = 750 \<and> frameTimeout m' = 1750"
    by (simp add: calcTimeout_def Let_def)
qed

theorem C8_calcTimeout_witness:
  "(\<exists>m'. calcTimeout 8 0 1 (ModbusRTUMaster_new\<lparr> baud := 9600 \<rparr>) = Some m'
       \<and> unat (byteTimeout m') = 1561 \<and> unat (frameTimeout m') = 3643)
   \<and> (\<exists>m'. calcTimeout 8 0 1 ModbusRTUMaster_new = Some m'
       \<and> byteTimeout m' = 750 \<and> frameTimeout m' = 1750)"
proof -
  have c: "charTimeOf 9600 10 = 1041" by (simp add: charTimeOf_def)
  show ?thesis
    using C8_calcTimeout [of "ModbusRTUMaster_new\<lparr> baud := 9600 \<rparr>" 8 0 1]
          C8_calcTimeout [of ModbusRTUMaster_new 8 0 1]
    by (simp add: ModbusRTUMaster_new_def c)
qed

text \<open>
  Claim C8 as stated fails at 9600 baud, 8N1: the character time is 1041, the byte timeout
  is 1561 and the frame timeout 3643, not 1561.5 and 3643.5.  At a baud rate below the
  number of bits per character the divisor is zero and nothing is set.
\<close>

theorem C8_calcTimeout_counterexample:
  "(case calcTimeout 8 0 1 (ModbusRTUMaster_new\<lparr> baud := 9600 \<rparr>) of
      Some m' \<Rightarrow> 2 * unat (byteTimeout m') \<noteq> 3 * charTimeOf 9600 (8 + 1 + 0 + 1)
               \<and> 2 * unat (frameTimeout m') \<noteq> 7 * charTimeOf 9600 (8 + 1 + 0 + 1)
    | None \<Rightarrow> False)
   \<and> calcTimeout 8 0 1 (ModbusRTUMaster_new\<lparr> baud := 5 \<rparr>) = None"
  by (simp add: calcTimeout_def Let_def ModbusRTUMaster_new_def charTimeOf_def)

section \<open>Properties of the request API\<close>

text \<open>
  Claim C4.  Every single-slave read call (function codes 0x01, 0x02, 0x03, 0x04, 0x07,
  0x17) with slave ID 0 returns at once, whatever the nesting bound; the master is as
  before except for one more callback invocation: the supplied callback, on a
  synthesized PDU with slave 0 and error \<open>INVALID_SLAVE\<close> (17).  So the pool, the
  queue and the bytes written to the stream are unchanged.
\<close>

theorem C4_read_slave_zero:
  "issue n call 0 cb m =
     Some (m\<lparr> events := events m @ [Fired cb ((PDU_new 0)\<lparr> err := MB_EX_LIB_INVALID_SLAVE \<rparr>)] \<rparr>)
   \<and> MB_EX_LIB_INVALID_SLAVE = 17
   \<and> fnCode call \<in> {0x01, 0x02, 0x03, 0x04, 0x07, 0x17}"
  by (cases call)
     (simp_all add: request_def readCoilsByBytes_def readCoil_def readCoils_def
        readDiscreteInput_def readDiscreteInputsByBytes_def readDiscreteInputs_def
        readExceptionStatus_def readWriteMultipleRegisters_def readHoldingRegister_def
        readHoldingRegisters_def readInputRegister_def readInputRegisters_def
        MB_EX_LIB_INVALID_SLAVE_def MB_FC_READ_COILS_def MB_FC_READ_DISCRETE_INPUTS_def
        MB_FC_READ_HOLDING_REGISTERS_def MB_FC_READ_INPUT_REGISTERS_def
        MB_FC_READ_EXCEPTION_STATUS_def MB_FC_READ_AND_WRITE_REGISTERS_def)

section \<open>Properties of the callback path\<close>

lemma events_updADU [simp]: "events (updADU i f m) = events m"
  by (simp add: updADU_def)

lemma queue_updADU [simp]: "queue (updADU i f m) = queue m"
  by (simp add: updADU_def)

lemma millis_updADU [simp]: "millis (updADU i f m) = millis m"
  by (simp add: updADU_def)


lemma length_adu_updADU [simp]: "length (adu (updADU i f m)) = length (adu m)"
  by (simp add: updADU_def)

lemma fire_fields [simp]:
  "adu (fire i m) = adu m" "queue (fire i m) = queue m" "millis (fire i m) = millis m"
  "events (fire i m) = events m @ [Fired (callback (adu m ! i)) (PDU.truncate (adu m ! i))]"
  by (simp_all add: fire_def)

text \<open>Callback invocations are only ever appended.\<close>

lemma events_grow:
  "(callCallback n i m = Some m' \<longrightarrow> (\<exists>rest. events m' = events m @ rest))"
  "(repeatIfNeeded n i m = Some r \<longrightarrow> (\<exists>rest. events (snd r) = events m @ rest))"
  "(sendPDU n i sl m = Some r \<longrightarrow> (\<exists>rest. events (snd r) = events m @ rest))"
proof (induction n i m and n i m and n i sl m arbitrary: m' and r and r
       rule: callCallback_repeatIfNeeded_sendPDU.induct)
  case (1 i m)
  then show ?case by simp
next
  case (2 n i m)
  show ?case
  proof (cases "cb_valid (callback (adu m ! i))")
    case False
    then show ?thesis by auto
  next
    case True
    show ?thesis
    proof (cases "repeatIfNeeded n i (fire i m)")
      case None
      then show ?thesis using True by simp
    next
      case (Some r)
      from "2.IH" [OF True, of r] Some obtain rest where
        "events (snd r) = events (fire i m) @ rest" by auto
      then show ?thesis using True Some by auto
    qed
  qed
next
  case (3 n i m)
  show ?case
    using "3.IH"
    by (auto simp: repeatIfNeeded.simps [of n i m] Let_def split: if_splits)
next
  case (4 n i sl m)
  define m1 where "m1 = updADU i (\<lambda>a. (setCRC (setHead sl a))\<lparr> responseLen := 0 \<rparr>) m"
  define q where "q = add i (queue m1)"
  have em: "events m1 = events m" by (simp add: m1_def)
  have sp: "sendPDU n i sl m =
      (if \<not> fst q
       then (case callCallback n i (updADU i (\<lambda>a. a\<lparr> err := MB_EX_LIB_QUEUE_FULL \<rparr>) m1) of
               None \<Rightarrow> None
             | Some m2 \<Rightarrow> Some (False, m2))
       else Some (True, m1\<lparr> queue := snd q \<rparr>))"
    unfolding sendPDU.simps [of n i sl m] Let_def m1_def q_def ..
  show ?case
  proof (cases "fst q")
    case True
    then show ?thesis unfolding sp using em by auto
  next
    case False
    note ih = "4.IH" [OF m1_def q_def False]
    show ?thesis
      unfolding sp using False ih em by (auto split: option.splits)
  qed
qed

lemma setHead_setCRC_fields [simp]:
  "delayToSend (setCRC a) = delayToSend a" "queuedTime (setCRC a) = queuedTime a"
  "slaves (setCRC a) = slaves a" "used (setCRC a) = used a" "callback (setCRC a) = callback a"
  "TXhead (setCRC a) = TXhead a" "err (setCRC a) = err a"
  "dataBegin (setCRC a) = dataBegin a" "dataLen (setCRC a) = dataLen a"
  "delayToSend (setHead sl a) = delayToSend a" "queuedTime (setHead sl a) = queuedTime a"
  "slaves (setHead sl a) = slaves a" "used (setHead sl a) = used a" "callback (setHead sl a) = callback a"
  "TXhead (setHead sl a) = sl" "err (setHead sl a) = err a"
  "dataBegin (setHead sl a) = dataBegin a" "dataLen (setHead sl a) = dataLen a"
  by (simp_all add: setCRC_def setHead_def Let_def)






lemma truncate_fields [simp]:
  "err (PDU.truncate a) = err a" "dataBegin (PDU.truncate a) = dataBegin a"
  "dataLen (PDU.truncate a) = dataLen a"
  by (simp_all add: PDU.truncate_def)






end
